theory Spec2Isabelle
  imports Complex_Main
begin

section \<open>Data model\<close>

text \<open>
  The analysis works on a multiple sequence alignment held as a two-dimensional numpy
  array of one-character cells: rows are sequences, columns are alignment positions.
  A one-dimensional column is a list of characters. Python integers are \<open>int\<close>,
  counts are \<open>nat\<close>, and Python floats are idealised as \<open>real\<close> (rounding is not
  modelled). Every exception the modelled code can raise is a value of \<open>py_error\<close>.
\<close>

datatype py_error = IndexError | KeyError | ShapeMismatch | ZeroDivisionError | LogDomain

definition bind_err :: "py_error + 'a \<Rightarrow> ('a \<Rightarrow> py_error + 'b) \<Rightarrow> py_error + 'b" where
  "bind_err m f = (case m of Inl e \<Rightarrow> Inl e | Inr x \<Rightarrow> f x)"

definition gap :: char where
  "gap = CHR ''-''"

section \<open>numpy and Python primitives used by the analysis\<close>

text \<open>
  The alignment matrix: a rectangular array with \<open>ncols\<close> columns whose rows are the
  sequences. \<open>alignment_array[:, pos]\<close> reads one column. An index into an axis of length
  \<open>n\<close> is normalised by \<open>py_index\<close>: a negative index counts from the end, and an index
  outside \<open>-n \<le> i < n\<close> raises IndexError. In a numpy array every row has \<open>ncols\<close>
  cells; the example alignments below are of that shape.
\<close>

record alignment =
  ncols :: nat
  seqs :: "char list list"

definition py_index :: "nat \<Rightarrow> int \<Rightarrow> py_error + nat" where
  "py_index n i =
     (if 0 \<le> i \<and> i < int n then Inr (nat i)
      else if - int n \<le> i \<and> i < 0 then Inr (nat (int n + i))
      else Inl IndexError)"

definition get_column :: "alignment \<Rightarrow> int \<Rightarrow> py_error + char list" where
  "get_column A pos =
     bind_err (py_index (ncols A) pos) (\<lambda>j. Inr (map (\<lambda>r. r ! j) (seqs A)))"

text \<open>\<open>col != '-'\<close>: the element-wise comparison of a column with the gap symbol.\<close>

definition ne_gap :: "char list \<Rightarrow> bool list" where
  "ne_gap col = map (\<lambda>c. c \<noteq> gap) col"

text \<open>
  \<open>m1 & m2\<close> on boolean arrays: element-wise on equal lengths; numpy broadcasts an operand
  of length one and raises on any other mismatch.
\<close>

definition np_and :: "bool list \<Rightarrow> bool list \<Rightarrow> py_error + bool list" where
  "np_and m1 m2 =
     (if length m1 = length m2 then Inr (map2 (\<and>) m1 m2)
      else if length m1 = 1 then Inr (map (\<lambda>y. hd m1 \<and> y) m2)
      else if length m2 = 1 then Inr (map (\<lambda>x. x \<and> hd m2) m1)
      else Inl ShapeMismatch)"

text \<open>
  \<open>col[mask]\<close>: boolean indexing. The mask must have the length of the array, except
  that numpy accepts an empty mask on any array and selects nothing.
\<close>

definition bool_index :: "'a list \<Rightarrow> bool list \<Rightarrow> py_error + 'a list" where
  "bool_index col msk =
     (if length msk = length col then Inr (map fst (filter snd (zip col msk)))
      else if msk = [] then Inr []
      else Inl IndexError)"

text \<open>
  \<open>collections.Counter\<close>: a dictionary from keys to counts that keeps the order in which
  keys were first inserted, so it is an association list. \<open>Counter(xs)\<close> counts the
  elements of \<open>xs\<close> from left to right; \<open>c[k]\<close> is 0 for a key that is absent.
\<close>

type_synonym 'a counter = "('a \<times> nat) list"

fun counter_add :: "'a \<Rightarrow> 'a counter \<Rightarrow> 'a counter" where
  "counter_add x [] = [(x, 1)]"
| "counter_add x ((k, c) # kcs) =
     (if k = x then (k, Suc c) # kcs else (k, c) # counter_add x kcs)"

definition Counter :: "'a list \<Rightarrow> 'a counter" where
  "Counter xs = foldl (\<lambda>c x. counter_add x c) [] xs"

definition counter_get :: "'a counter \<Rightarrow> 'a \<Rightarrow> nat" where
  "counter_get c k = (case map_of c k of None \<Rightarrow> 0 | Some n \<Rightarrow> n)"

text \<open>
  Arithmetic. \<open>n / total\<close> on Python integers and \<open>x / y\<close> on floats raise
  ZeroDivisionError on a zero divisor. \<open>np.log2\<close> of a non-positive number does not
  raise: it yields \<open>-inf\<close> or \<open>nan\<close>, which the reals do not have, so the model marks
  that outcome as \<open>LogDomain\<close>; the properties below show it is never reached.
\<close>

definition py_truediv :: "nat \<Rightarrow> nat \<Rightarrow> py_error + real" where
  "py_truediv n d = (if d = 0 then Inl ZeroDivisionError else Inr (real n / real d))"

definition float_div :: "real \<Rightarrow> real \<Rightarrow> py_error + real" where
  "float_div x y = (if y = 0 then Inl ZeroDivisionError else Inr (x / y))"

definition np_log2 :: "real \<Rightarrow> py_error + real" where
  "np_log2 x = (if 0 < x then Inr (log 2 x) else Inl LogDomain)"

text \<open>
  \<open>xs[:n]\<close>: the first \<open>n\<close> elements; a negative \<open>n\<close> drops the last \<open>-n\<close> elements.
\<close>

definition slice_to :: "'a list \<Rightarrow> int \<Rightarrow> 'a list" where
  "slice_to xs n = (if 0 \<le> n then take (nat n) xs else take (length xs - nat (- n)) xs)"

text \<open>
  \<open>sorted(xs, key=key, reverse=True)\<close> and \<open>xs.sort(key=key, reverse=True)\<close>: descending
  by key, and stable (elements with equal keys keep their order).
\<close>

definition sorted_reverse :: "('a \<Rightarrow> 'k::linordered_ab_group_add) \<Rightarrow> 'a list \<Rightarrow> 'a list" where
  "sorted_reverse key xs = sort_key (\<lambda>x. - key x) xs"

section \<open>coevolutionary\_analysis.py: the mutual-information engine\<close>

text \<open>
  The loop of \<open>compute_mutual_information\<close> over \<open>count_ij.items()\<close>, with the
  accumulator \<open>mi\<close>.
\<close>

fun mi_loop :: "nat \<Rightarrow> char counter \<Rightarrow> char counter \<Rightarrow> (char \<times> char) counter \<Rightarrow> real
                \<Rightarrow> py_error + real" where
  "mi_loop tot count_i count_j [] mi = Inr mi"
| "mi_loop tot count_i count_j (((aa_i, aa_j), n_ij) # items) mi =
     bind_err (py_truediv n_ij tot) (\<lambda>p_ij.
     bind_err (py_truediv (counter_get count_i aa_i) tot) (\<lambda>p_i.
     bind_err (py_truediv (counter_get count_j aa_j) tot) (\<lambda>p_j.
       if 0 < p_ij \<and> 0 < p_i \<and> 0 < p_j
       then bind_err (float_div p_ij (p_i * p_j)) (\<lambda>q.
            bind_err (np_log2 q) (\<lambda>l.
              mi_loop tot count_i count_j items (mi + p_ij * l)))
       else mi_loop tot count_i count_j items mi)))"

definition compute_mutual_information :: "char list \<Rightarrow> char list \<Rightarrow> py_error + real" where
  "compute_mutual_information col_i col_j =
     bind_err (np_and (ne_gap col_i) (ne_gap col_j)) (\<lambda>msk.
     bind_err (bool_index col_i msk) (\<lambda>col_i_clean.
     bind_err (bool_index col_j msk) (\<lambda>col_j_clean.
       if length col_i_clean = 0 then Inr 0
       else
         bind_err (mi_loop (length col_i_clean) (Counter col_i_clean) (Counter col_j_clean)
                     (Counter (zip col_i_clean col_j_clean)) 0) (\<lambda>mi.
         Inr (max 0 mi)))))"

text \<open>The loop of \<open>compute_triplet_mi\<close> over \<open>count_ijk.items()\<close>.\<close>

fun mi3_loop :: "nat \<Rightarrow> char counter \<Rightarrow> char counter \<Rightarrow> char counter
                 \<Rightarrow> (char \<times> char \<times> char) counter \<Rightarrow> real \<Rightarrow> py_error + real" where
  "mi3_loop tot count_i count_j count_k [] mi3 = Inr mi3"
| "mi3_loop tot count_i count_j count_k (((aa_i, aa_j, aa_k), n_ijk) # items) mi3 =
     bind_err (py_truediv n_ijk tot) (\<lambda>p_ijk.
     bind_err (py_truediv (counter_get count_i aa_i) tot) (\<lambda>p_i.
     bind_err (py_truediv (counter_get count_j aa_j) tot) (\<lambda>p_j.
     bind_err (py_truediv (counter_get count_k aa_k) tot) (\<lambda>p_k.
       if 0 < p_ijk \<and> 0 < p_i \<and> 0 < p_j \<and> 0 < p_k
       then bind_err (float_div p_ijk (p_i * p_j * p_k)) (\<lambda>q.
            bind_err (np_log2 q) (\<lambda>l.
              mi3_loop tot count_i count_j count_k items (mi3 + p_ijk * l)))
       else mi3_loop tot count_i count_j count_k items mi3))))"

definition compute_triplet_mi :: "alignment \<Rightarrow> int \<Rightarrow> int \<Rightarrow> int \<Rightarrow> py_error + real" where
  "compute_triplet_mi alignment_array pos_i pos_j pos_k =
     bind_err (get_column alignment_array pos_i) (\<lambda>col_i.
     bind_err (get_column alignment_array pos_j) (\<lambda>col_j.
     bind_err (get_column alignment_array pos_k) (\<lambda>col_k.
     bind_err (np_and (ne_gap col_i) (ne_gap col_j)) (\<lambda>mask_ij.
     bind_err (np_and mask_ij (ne_gap col_k)) (\<lambda>msk.
     bind_err (bool_index col_i msk) (\<lambda>col_i_clean.
     bind_err (bool_index col_j msk) (\<lambda>col_j_clean.
     bind_err (bool_index col_k msk) (\<lambda>col_k_clean.
       if length col_i_clean < 10 then Inr 0
       else
         bind_err (mi3_loop (length col_i_clean) (Counter col_i_clean) (Counter col_j_clean)
                     (Counter col_k_clean)
                     (Counter (zip col_i_clean (zip col_j_clean col_k_clean))) 0) (\<lambda>mi3.
         Inr (max 0 mi3))))))))))"

definition compute_connected_triplet_mi :: "alignment \<Rightarrow> int \<Rightarrow> int \<Rightarrow> int \<Rightarrow> py_error + real" where
  "compute_connected_triplet_mi alignment_array pos_i pos_j pos_k =
     bind_err (compute_triplet_mi alignment_array pos_i pos_j pos_k) (\<lambda>mi_ijk.
     bind_err (get_column alignment_array pos_i) (\<lambda>col_i.
     bind_err (get_column alignment_array pos_j) (\<lambda>col_j.
     bind_err (compute_mutual_information col_i col_j) (\<lambda>mi_ij.
     bind_err (get_column alignment_array pos_i) (\<lambda>col_i'.
     bind_err (get_column alignment_array pos_k) (\<lambda>col_k.
     bind_err (compute_mutual_information col_i' col_k) (\<lambda>mi_ik.
     bind_err (get_column alignment_array pos_j) (\<lambda>col_j'.
     bind_err (get_column alignment_array pos_k) (\<lambda>col_k'.
     bind_err (compute_mutual_information col_j' col_k') (\<lambda>mi_jk.
       Inr (mi_ijk - (mi_ij + mi_ik + mi_jk))))))))))))"

section \<open>analyze\_position.py: find\_alignment\_position\<close>

text \<open>
  The loop \<open>for i, aa in enumerate(query_seq)\<close> with its counter \<open>query_position\<close>;
  the arguments are the rest of the sequence, the index \<open>i\<close>, the counter and the target.
  Falling off the end of the loop is \<open>return None\<close>.
\<close>

fun fap_loop :: "char list \<Rightarrow> nat \<Rightarrow> int \<Rightarrow> int \<Rightarrow> nat option" where
  "fap_loop [] i query_position target_position = None"
| "fap_loop (aa # rest) i query_position target_position =
     (if aa \<noteq> gap
      then (if query_position + 1 = target_position then Some i
            else fap_loop rest (Suc i) (query_position + 1) target_position)
      else fap_loop rest (Suc i) query_position target_position)"

definition find_alignment_position :: "char list \<Rightarrow> int \<Rightarrow> nat option" where
  "find_alignment_position query_seq target_position = fap_loop query_seq 0 0 target_position"

text \<open>The number of non-gap characters of a sequence (used to state properties).\<close>

definition nongap_count :: "char list \<Rightarrow> nat" where
  "nongap_count s = length (filter (\<lambda>c. c \<noteq> gap) s)"

section \<open>Views used to state and prove properties\<close>

text \<open>
  The rows that survive the gap mask of a pair (a triple) of columns, as pairs (triples)
  of symbols; the summand of one loop iteration; and the value the loop and the final
  clamp produce from the surviving rows. The lemmas \<open>compute_mutual_information_value\<close>
  and \<open>compute_triplet_mi_value\<close> below prove that the code computes these values.
\<close>

definition joint_rows :: "char list \<Rightarrow> char list \<Rightarrow> (char \<times> char) list" where
  "joint_rows a b = filter (\<lambda>(x, y). x \<noteq> gap \<and> y \<noteq> gap) (zip a b)"

definition joint_rows3 :: "char list \<Rightarrow> char list \<Rightarrow> char list \<Rightarrow> (char \<times> char \<times> char) list" where
  "joint_rows3 a b c = filter (\<lambda>(x, y, z). x \<noteq> gap \<and> y \<noteq> gap \<and> z \<noteq> gap) (zip a (zip b c))"

definition mi_term :: "nat \<Rightarrow> char counter \<Rightarrow> char counter \<Rightarrow> (char \<times> char) \<times> nat \<Rightarrow> real" where
  "mi_term tot count_i count_j item =
     (case item of ((aa_i, aa_j), n_ij) \<Rightarrow>
        let p_ij = real n_ij / real tot;
            p_i = real (counter_get count_i aa_i) / real tot;
            p_j = real (counter_get count_j aa_j) / real tot
        in if 0 < p_ij \<and> 0 < p_i \<and> 0 < p_j then p_ij * log 2 (p_ij / (p_i * p_j)) else 0)"

definition mi_value :: "(char \<times> char) list \<Rightarrow> real" where
  "mi_value prs =
     (if prs = [] then 0
      else max 0 (foldl (\<lambda>acc item. acc + mi_term (length prs) (Counter (map fst prs))
                                          (Counter (map snd prs)) item) 0 (Counter prs)))"

definition mi3_term :: "nat \<Rightarrow> char counter \<Rightarrow> char counter \<Rightarrow> char counter
                        \<Rightarrow> (char \<times> char \<times> char) \<times> nat \<Rightarrow> real" where
  "mi3_term tot count_i count_j count_k item =
     (case item of ((aa_i, aa_j, aa_k), n_ijk) \<Rightarrow>
        let p_ijk = real n_ijk / real tot;
            p_i = real (counter_get count_i aa_i) / real tot;
            p_j = real (counter_get count_j aa_j) / real tot;
            p_k = real (counter_get count_k aa_k) / real tot
        in if 0 < p_ijk \<and> 0 < p_i \<and> 0 < p_j \<and> 0 < p_k
           then p_ijk * log 2 (p_ijk / (p_i * p_j * p_k)) else 0)"

definition mi3_value :: "(char \<times> char \<times> char) list \<Rightarrow> real" where
  "mi3_value trs =
     (if length trs < 10 then 0
      else max 0 (foldl (\<lambda>acc item. acc + mi3_term (length trs) (Counter (map fst trs))
                          (Counter (map (fst \<circ> snd) trs)) (Counter (map (snd \<circ> snd) trs)) item)
                    0 (Counter trs)))"

text \<open>
  The number of rows of the alignment that are non-gap in all of the columns \<open>i\<close>, \<open>j\<close>
  and \<open>k\<close>, and the positions numpy accepts as a column index.
\<close>

definition jointly_nongap3 :: "alignment \<Rightarrow> nat \<Rightarrow> nat \<Rightarrow> nat \<Rightarrow> nat" where
  "jointly_nongap3 A i j k =
     length (filter (\<lambda>row. row ! i \<noteq> gap \<and> row ! j \<noteq> gap \<and> row ! k \<noteq> gap) (seqs A))"

definition valid_pos :: "alignment \<Rightarrow> int \<Rightarrow> bool" where
  "valid_pos A pos \<longleftrightarrow> - int (ncols A) \<le> pos \<and> pos < int (ncols A)"

text \<open>
  Example alignments. In \<open>ex_nine\<close> the first two columns are identical over ten rows and
  the third column has a gap in the last row, so nine rows are jointly non-gap.
\<close>

definition ex_nine :: alignment where
  "ex_nine = \<lparr>ncols = 3, seqs = [''AAC'', ''AAC'', ''AAC'', ''AAC'', ''AAC'',
                                  ''BBC'', ''BBC'', ''BBC'', ''BBC'', ''BB-'']\<rparr>"

text \<open>An alignment of twelve identical rows whose third column is all gaps.\<close>

definition ex_flat :: alignment where
  "ex_flat = \<lparr>ncols = 3, seqs = [''AA-'', ''AA-'', ''AA-'', ''AA-'', ''AA-'', ''AA-'',
                                  ''AA-'', ''AA-'', ''AA-'', ''AA-'', ''AA-'', ''AA-'']\<rparr>"

section \<open>coevolutionary\_analysis.py: get\_amino\_acid\_pairs\<close>

text \<open>
  The list comprehension that formats the ranked pairs; \<open>count/total\<close> is a Python
  division.
\<close>

fun format_pairs :: "nat \<Rightarrow> (char \<times> char) counter \<Rightarrow> py_error + (char \<times> char \<times> real \<times> nat) list" where
  "format_pairs tot [] = Inr []"
| "format_pairs tot (((aa_i, aa_j), count) # sorted_pairs) =
     bind_err (py_truediv count tot) (\<lambda>freq.
     bind_err (format_pairs tot sorted_pairs) (\<lambda>result.
       Inr ((aa_i, aa_j, freq, count) # result)))"

definition get_amino_acid_pairs ::
  "alignment \<Rightarrow> int \<Rightarrow> int \<Rightarrow> int \<Rightarrow> py_error + (char \<times> char \<times> real \<times> nat) list" where
  "get_amino_acid_pairs alignment_array pos_i_idx pos_j_idx top_n =
     bind_err (get_column alignment_array pos_i_idx) (\<lambda>col_i.
     bind_err (get_column alignment_array pos_j_idx) (\<lambda>col_j.
     bind_err (np_and (ne_gap col_i) (ne_gap col_j)) (\<lambda>msk.
     bind_err (bool_index col_i msk) (\<lambda>col_i_clean.
     bind_err (bool_index col_j msk) (\<lambda>col_j_clean.
       if length col_i_clean = 0 then Inr []
       else
         let pairs = zip col_i_clean col_j_clean;
             pair_counts = Counter pairs;
             tot = length pairs;
             sorted_pairs = slice_to (sorted_reverse (\<lambda>x. int (snd x)) pair_counts) top_n
         in format_pairs tot sorted_pairs)))))"

text \<open>The call with the default \<open>top_n = 5\<close>.\<close>

definition get_amino_acid_pairs_default ::
  "alignment \<Rightarrow> int \<Rightarrow> int \<Rightarrow> py_error + (char \<times> char \<times> real \<times> nat) list" where
  "get_amino_acid_pairs_default alignment_array pos_i_idx pos_j_idx =
     get_amino_acid_pairs alignment_array pos_i_idx pos_j_idx 5"

text \<open>The column of an alignment at a valid index, and the alignment of the spec's example.\<close>

definition column :: "alignment \<Rightarrow> nat \<Rightarrow> char list" where
  "column A i = map (\<lambda>r. r ! i) (seqs A)"

definition ex_pairs :: alignment where
  "ex_pairs = \<lparr>ncols = 2, seqs = [''AD'', ''AD'', ''CE'', ''-F'']\<rparr>"

section \<open>coevolutionary\_analysis.py: find\_top\_triplets\<close>

text \<open>
  \<open>xs[i]\<close> on a Python list and \<open>d[k]\<close> on a dictionary.
\<close>

definition list_get :: "'a list \<Rightarrow> int \<Rightarrow> py_error + 'a" where
  "list_get xs i = bind_err (py_index (length xs) i) (\<lambda>j. Inr (xs ! j))"

definition dict_get :: "('k \<rightharpoonup> 'v) \<Rightarrow> 'k \<Rightarrow> py_error + 'v" where
  "dict_get d k = (case d k of None \<Rightarrow> Inl KeyError | Some v \<Rightarrow> Inr v)"

text \<open>
  The index pairs visited by \<open>for i in range(n_pos): for j in range(i+1, n_pos)\<close>, in
  the order of the loops, and the loop body, which appends \<open>(i, j, mi)\<close> to
  \<open>pair_scores\<close>.
\<close>

definition range_pairs :: "nat \<Rightarrow> (nat \<times> nat) list" where
  "range_pairs n_pos = concat (map (\<lambda>i. map (\<lambda>j. (i, j)) [Suc i..<n_pos]) [0..<n_pos])"

fun score_pairs :: "alignment \<Rightarrow> (nat \<times> nat) list \<Rightarrow> (nat \<times> nat \<times> real) list
                    \<Rightarrow> py_error + (nat \<times> nat \<times> real) list" where
  "score_pairs alignment_array [] pair_scores = Inr pair_scores"
| "score_pairs alignment_array ((i, j) # rest) pair_scores =
     bind_err (get_column alignment_array (int i)) (\<lambda>col_i.
     bind_err (get_column alignment_array (int j)) (\<lambda>col_j.
     bind_err (compute_mutual_information col_i col_j) (\<lambda>mi.
       score_pairs alignment_array rest (pair_scores @ [(i, j, mi)]))))"

text \<open>
  \<open>candidate_positions\<close> is a set to which both positions of every top pair are added;
  \<open>candidate_list = sorted(list(candidate_positions))\<close> lists it in ascending order.
\<close>

definition candidate_list :: "(nat \<times> nat \<times> real) list \<Rightarrow> nat list" where
  "candidate_list top_pairs = sort (remdups (concat (map (\<lambda>(i, j, mi). [i, j]) top_pairs)))"

text \<open>\<open>itertools.combinations(xs, 3)\<close>: the triples of elements at increasing positions.\<close>

fun combinations2 :: "'a list \<Rightarrow> ('a \<times> 'a) list" where
  "combinations2 [] = []"
| "combinations2 (x # xs) = map (Pair x) xs @ combinations2 xs"

fun combinations3 :: "'a list \<Rightarrow> ('a \<times> 'a \<times> 'a) list" where
  "combinations3 [] = []"
| "combinations3 (x # xs) = map (Pair x) (combinations2 xs) @ combinations3 xs"

text \<open>
  The loop over the triples, with the accumulator \<open>triplet_scores\<close>. The progress
  messages it prints are not modelled.
\<close>

fun score_triplets :: "alignment \<Rightarrow> int list \<Rightarrow> (int \<rightharpoonup> string) \<Rightarrow> (nat \<times> nat \<times> nat) list
                       \<Rightarrow> (string \<times> string \<times> string \<times> real) list
                       \<Rightarrow> py_error + (string \<times> string \<times> string \<times> real) list" where
  "score_triplets alignment_array position_indices position_labels [] triplet_scores =
     Inr triplet_scores"
| "score_triplets alignment_array position_indices position_labels ((i, j, k) # rest)
     triplet_scores =
     bind_err (compute_connected_triplet_mi alignment_array (int i) (int j) (int k)) (\<lambda>cmi.
       if 0 < cmi then
         bind_err (list_get position_indices (int i)) (\<lambda>aln_pos_i.
         bind_err (list_get position_indices (int j)) (\<lambda>aln_pos_j.
         bind_err (list_get position_indices (int k)) (\<lambda>aln_pos_k.
         bind_err (dict_get position_labels aln_pos_i) (\<lambda>label_i.
         bind_err (dict_get position_labels aln_pos_j) (\<lambda>label_j.
         bind_err (dict_get position_labels aln_pos_k) (\<lambda>label_k.
           score_triplets alignment_array position_indices position_labels rest
             (triplet_scores @ [(label_i, label_j, label_k, cmi)])))))))
       else score_triplets alignment_array position_indices position_labels rest
              triplet_scores)"

definition find_top_triplets ::
  "alignment \<Rightarrow> int list \<Rightarrow> (int \<rightharpoonup> string) \<Rightarrow> int \<Rightarrow> int
   \<Rightarrow> py_error + (string \<times> string \<times> string \<times> real) list" where
  "find_top_triplets alignment_array position_indices position_labels top_n max_candidates =
     (let n_pos = length position_indices in
      bind_err (score_pairs alignment_array (range_pairs n_pos) []) (\<lambda>pair_scores.
        let top_pairs = slice_to (sorted_reverse (\<lambda>(i, j, mi). mi) pair_scores) max_candidates;
            candidates = candidate_list top_pairs
        in bind_err (score_triplets alignment_array position_indices position_labels
                       (combinations3 candidates) []) (\<lambda>triplet_scores.
             Inr (slice_to (sorted_reverse (\<lambda>(label_i, label_j, label_k, cmi). cmi)
                              triplet_scores) top_n))))"

text \<open>The call with the defaults \<open>top_n = 20\<close> and \<open>max_candidates = 100\<close>.\<close>

definition find_top_triplets_default ::
  "alignment \<Rightarrow> int list \<Rightarrow> (int \<rightharpoonup> string)
   \<Rightarrow> py_error + (string \<times> string \<times> string \<times> real) list" where
  "find_top_triplets_default alignment_array position_indices position_labels =
     find_top_triplets alignment_array position_indices position_labels 20 100"

text \<open>
  Views for the properties: the pairwise and the connected value at column indices, and
  the label of a column index. \<open>ex_xor\<close> is an alignment of twelve rows in which any two
  columns are independent and the third symbol is determined by the other two.
\<close>

definition pair_mi :: "alignment \<Rightarrow> nat \<Rightarrow> nat \<Rightarrow> real" where
  "pair_mi A i j = mi_value (joint_rows (column A i) (column A j))"

definition connected_mi :: "alignment \<Rightarrow> nat \<Rightarrow> nat \<Rightarrow> nat \<Rightarrow> real" where
  "connected_mi A i j k =
     mi3_value (joint_rows3 (column A i) (column A j) (column A k))
       - (pair_mi A i j + pair_mi A i k + pair_mi A j k)"

definition label_of :: "int list \<Rightarrow> (int \<rightharpoonup> string) \<Rightarrow> nat \<Rightarrow> string" where
  "label_of position_indices position_labels i = the (position_labels (position_indices ! i))"

definition ex_xor :: alignment where
  "ex_xor = \<lparr>ncols = 3, seqs = [''AAA'', ''ABB'', ''BAB'', ''BBA'', ''AAA'', ''ABB'',
                                 ''BAB'', ''BBA'', ''AAA'', ''ABB'', ''BAB'', ''BBA'']\<rparr>"

definition ex_labels :: "int \<rightharpoonup> string" where
  "ex_labels = [0 \<mapsto> ''GLU1'', 1 \<mapsto> ''ASP2'', 2 \<mapsto> ''TYR3'']"

text \<open>
  The ranking of all scored pairs and the ranking of the retained triplets of a candidate
  list, by position; \<open>find_top_triplets_value\<close> below proves that the code computes them.
\<close>

definition ranked_pairs :: "alignment \<Rightarrow> nat \<Rightarrow> (nat \<times> nat \<times> real) list" where
  "ranked_pairs A n_pos =
     sorted_reverse (\<lambda>(i, j, mi). mi) (map (\<lambda>(i, j). (i, j, pair_mi A i j)) (range_pairs n_pos))"

definition ranked_triplets :: "alignment \<Rightarrow> nat list \<Rightarrow> (nat \<times> nat \<times> nat \<times> real) list" where
  "ranked_triplets A candidates =
     sorted_reverse (\<lambda>(i, j, k, cmi). cmi)
       (map (\<lambda>(i, j, k). (i, j, k, connected_mi A i j k))
          (filter (\<lambda>(i, j, k). 0 < connected_mi A i j k) (combinations3 candidates)))"

section \<open>Properties of find\_alignment\_position\<close>

lemma nongap_count_Cons:
  "nongap_count (c # s) = (if c \<noteq> gap then Suc (nongap_count s) else nongap_count s)"
  by (simp add: nongap_count_def)

lemma nongap_count_take_le: "nongap_count (take n s) \<le> nongap_count s"
proof -
  have "nongap_count s = nongap_count (take n s) + nongap_count (drop n s)"
    unfolding nongap_count_def by (metis append_take_drop_id filter_append length_append)
  then show ?thesis by simp
qed

lemma fap_loop_Some:
  "fap_loop s i q t = Some r \<Longrightarrow> q < t \<Longrightarrow>
     i \<le> r \<and> r - i < length s \<and> s ! (r - i) \<noteq> gap
     \<and> q + int (nongap_count (take (Suc (r - i)) s)) = t"
proof (induction s arbitrary: i q)
  case Nil
  then show ?case by simp
next
  case (Cons aa rest)
  show ?case
  proof (cases "aa \<noteq> gap")
    case ng: True
    show ?thesis
    proof (cases "q + 1 = t")
      case True
      with ng Cons.prems have "r = i" by simp
      with ng True show ?thesis by (simp add: nongap_count_Cons nongap_count_def)
    next
      case False
      with ng Cons.prems have rec: "fap_loop rest (Suc i) (q + 1) t = Some r" and lt: "q + 1 < t"
        by simp_all
      from Cons.IH [OF rec lt]
      have ih: "Suc i \<le> r" "r - Suc i < length rest" "rest ! (r - Suc i) \<noteq> gap"
        "q + 1 + int (nongap_count (take (Suc (r - Suc i)) rest)) = t" by simp_all
      from ih(1) have e: "r - i = Suc (r - Suc i)" by simp
      show ?thesis using ih ng by (simp add: e nongap_count_Cons)
    qed
  next
    case False
    with Cons.prems have rec: "fap_loop rest (Suc i) q t = Some r" by simp
    from Cons.IH [OF rec Cons.prems(2)]
    have ih: "Suc i \<le> r" "r - Suc i < length rest" "rest ! (r - Suc i) \<noteq> gap"
      "q + int (nongap_count (take (Suc (r - Suc i)) rest)) = t" by simp_all
    from ih(1) have e: "r - i = Suc (r - Suc i)" by simp
    show ?thesis using ih False by (simp add: e nongap_count_Cons)
  qed
qed

lemma fap_loop_None:
  "fap_loop s i q t = None \<Longrightarrow> q < t \<Longrightarrow> q + int (nongap_count s) < t"
proof (induction s arbitrary: i q)
  case Nil
  then show ?case by (simp add: nongap_count_def)
next
  case (Cons aa rest)
  show ?case
  proof (cases "aa \<noteq> gap")
    case True
    with Cons.prems have ne: "q + 1 \<noteq> t" and rec: "fap_loop rest (Suc i) (q + 1) t = None"
      by (simp_all split: if_splits)
    with Cons.prems have "q + 1 < t" by simp
    from Cons.IH [OF rec this] True show ?thesis by (simp add: nongap_count_Cons)
  next
    case False
    with Cons.prems have rec: "fap_loop rest (Suc i) q t = None" by simp
    from Cons.IH [OF rec Cons.prems(2)] False show ?thesis by (simp add: nongap_count_Cons)
  qed
qed

text \<open>
  C10. For a target position \<open>p \<ge> 1\<close>, \<open>find_alignment_position s p\<close> returns the 0-based
  index \<open>i\<close> of the \<open>p\<close>-th non-gap character of \<open>s\<close>: \<open>s ! i\<close> is not the gap symbol and
  exactly \<open>p\<close> of the characters \<open>s[0..i]\<close> are non-gap. It returns \<open>None\<close> exactly when \<open>s\<close>
  has fewer than \<open>p\<close> non-gap characters.
\<close>

theorem find_alignment_position_pth_nongap:
  assumes "1 \<le> p"
  shows "(case find_alignment_position s p of
            Some i \<Rightarrow> i < length s \<and> s ! i \<noteq> gap \<and> int (nongap_count (take (Suc i) s)) = p
          | None \<Rightarrow> int (nongap_count s) < p)
         \<and> (find_alignment_position s p = None \<longleftrightarrow> int (nongap_count s) < p)"
proof -
  have lt: "(0::int) < p" using assms by simp
  have some: "i < length s \<and> s ! i \<noteq> gap \<and> int (nongap_count (take (Suc i) s)) = p"
    if "find_alignment_position s p = Some i" for i
    using fap_loop_Some [of s 0 0 p i] that lt by (simp add: find_alignment_position_def)
  have none: "int (nongap_count s) < p" if "find_alignment_position s p = None"
    using fap_loop_None [of s 0 0 p] that lt by (simp add: find_alignment_position_def)
  have conv: "find_alignment_position s p \<noteq> None" if "int (nongap_count s) < p \<Longrightarrow> False"
    using none that by blast
  have "\<not> int (nongap_count s) < p" if "find_alignment_position s p = Some i" for i
  proof -
    from some [OF that] have "int (nongap_count (take (Suc i) s)) = p" by simp
    moreover have "nongap_count (take (Suc i) s) \<le> nongap_count s"
      by (rule nongap_count_take_le)
    ultimately show ?thesis by linarith
  qed
  then have iff: "find_alignment_position s p = None \<longleftrightarrow> int (nongap_count s) < p"
    using none by (cases "find_alignment_position s p") auto
  show ?thesis
    using some none iff by (cases "find_alignment_position s p") auto
qed

theorem find_alignment_position_pth_nongap_witness:
  "(1::int) \<le> 2 \<and> find_alignment_position ''-A-CD'' 2 = Some 3
   \<and> find_alignment_position ''-A-CD'' 4 = None
   \<and> int (nongap_count (take (Suc 3) ''-A-CD'')) = 2 \<and> int (nongap_count ''-A-CD'') < 4"
  using find_alignment_position_pth_nongap [of 2 "''-A-CD''"]
    find_alignment_position_pth_nongap [of 4 "''-A-CD''"]
  by (simp add: find_alignment_position_def nongap_count_def gap_def)

section \<open>The loops and the gap mask\<close>

lemma mi_loop_step:
  assumes "0 < tot"
  shows "mi_loop tot ci cj (((a, b), n) # items) mi
           = mi_loop tot ci cj items (mi + mi_term tot ci cj ((a, b), n))"
proof -
  let ?p_ij = "real n / real tot"
  let ?p_i = "real (counter_get ci a) / real tot"
  let ?p_j = "real (counter_get cj b) / real tot"
  have t: "tot \<noteq> 0" using assms by simp
  show ?thesis
  proof (cases "0 < ?p_ij \<and> 0 < ?p_i \<and> 0 < ?p_j")
    case True
    then have d: "0 < ?p_i * ?p_j" by (simp only: mult_pos_pos)
    then have q: "0 < ?p_ij / (?p_i * ?p_j)" using True by (simp only: divide_pos_pos)
    have d0: "?p_i * ?p_j \<noteq> 0" using d by linarith
    have "mi_loop tot ci cj (((a, b), n) # items) mi
            = mi_loop tot ci cj items (mi + ?p_ij * log 2 (?p_ij / (?p_i * ?p_j)))"
      using True t d0 q
      by (simp only: mi_loop.simps bind_err_def py_truediv_def float_div_def np_log2_def
            if_False if_True sum.case simp_thms)
    moreover have "mi_term tot ci cj ((a, b), n) = ?p_ij * log 2 (?p_ij / (?p_i * ?p_j))"
      using True by (simp only: mi_term_def Let_def prod.case if_True simp_thms)
    ultimately show ?thesis by simp
  next
    case False
    have "mi_loop tot ci cj (((a, b), n) # items) mi = mi_loop tot ci cj items mi"
      using False t
      by (simp only: mi_loop.simps bind_err_def py_truediv_def if_False sum.case simp_thms)
    moreover have "mi_term tot ci cj ((a, b), n) = 0"
      using False by (simp only: mi_term_def Let_def prod.case if_False simp_thms)
    ultimately show ?thesis by simp
  qed
qed

lemma mi_loop_Inr:
  "0 < tot \<Longrightarrow> mi_loop tot ci cj items mi
     = Inr (foldl (\<lambda>acc item. acc + mi_term tot ci cj item) mi items)"
proof (induction items arbitrary: mi)
  case Nil
  then show ?case by simp
next
  case (Cons item items)
  obtain a b n where item: "item = ((a, b), n)" by (metis surj_pair)
  show ?case
    unfolding item using Cons.IH [OF Cons.prems] by (simp only: mi_loop_step [OF Cons.prems] foldl_Cons)
qed

lemma mi3_loop_step:
  assumes "0 < tot"
  shows "mi3_loop tot ci cj ck (((a, b, c), n) # items) mi
           = mi3_loop tot ci cj ck items (mi + mi3_term tot ci cj ck ((a, b, c), n))"
proof -
  let ?p_ijk = "real n / real tot"
  let ?p_i = "real (counter_get ci a) / real tot"
  let ?p_j = "real (counter_get cj b) / real tot"
  let ?p_k = "real (counter_get ck c) / real tot"
  have t: "tot \<noteq> 0" using assms by simp
  show ?thesis
  proof (cases "0 < ?p_ijk \<and> 0 < ?p_i \<and> 0 < ?p_j \<and> 0 < ?p_k")
    case True
    then have d: "0 < ?p_i * ?p_j * ?p_k" by (simp only: mult_pos_pos)
    then have q: "0 < ?p_ijk / (?p_i * ?p_j * ?p_k)" using True by (simp only: divide_pos_pos)
    have d0: "?p_i * ?p_j * ?p_k \<noteq> 0" using d by linarith
    have "mi3_loop tot ci cj ck (((a, b, c), n) # items) mi
            = mi3_loop tot ci cj ck items (mi + ?p_ijk * log 2 (?p_ijk / (?p_i * ?p_j * ?p_k)))"
      using True t d0 q
      by (simp only: mi3_loop.simps bind_err_def py_truediv_def float_div_def np_log2_def
            if_False if_True sum.case simp_thms)
    moreover have "mi3_term tot ci cj ck ((a, b, c), n)
                     = ?p_ijk * log 2 (?p_ijk / (?p_i * ?p_j * ?p_k))"
      using True by (simp only: mi3_term_def Let_def prod.case if_True simp_thms)
    ultimately show ?thesis by simp
  next
    case False
    have "mi3_loop tot ci cj ck (((a, b, c), n) # items) mi = mi3_loop tot ci cj ck items mi"
      using False t
      by (simp only: mi3_loop.simps bind_err_def py_truediv_def if_False sum.case simp_thms)
    moreover have "mi3_term tot ci cj ck ((a, b, c), n) = 0"
      using False by (simp only: mi3_term_def Let_def prod.case if_False simp_thms)
    ultimately show ?thesis by simp
  qed
qed

lemma mi3_loop_Inr:
  "0 < tot \<Longrightarrow> mi3_loop tot ci cj ck items mi
     = Inr (foldl (\<lambda>acc item. acc + mi3_term tot ci cj ck item) mi items)"
proof (induction items arbitrary: mi)
  case Nil
  then show ?case by simp
next
  case (Cons item items)
  obtain a b c n where item: "item = ((a, b, c), n)" by (metis surj_pair)
  show ?case
    unfolding item using Cons.IH [OF Cons.prems] by (simp only: mi3_loop_step [OF Cons.prems] foldl_Cons)
qed

lemma clean_fst:
  "length a = length b \<Longrightarrow>
     map fst (filter snd (zip a (map2 (\<and>) (ne_gap a) (ne_gap b)))) = map fst (joint_rows a b)"
proof (induction a b rule: list_induct2)
  case Nil
  then show ?case by (simp add: joint_rows_def)
next
  case (Cons x xs y ys)
  then show ?case by (simp add: joint_rows_def ne_gap_def)
qed

lemma clean_snd:
  "length a = length b \<Longrightarrow>
     map fst (filter snd (zip b (map2 (\<and>) (ne_gap a) (ne_gap b)))) = map snd (joint_rows a b)"
proof (induction a b rule: list_induct2)
  case Nil
  then show ?case by (simp add: joint_rows_def)
next
  case (Cons x xs y ys)
  then show ?case by (simp add: joint_rows_def ne_gap_def)
qed

lemma compute_mutual_information_value:
  assumes "length a = length b"
  shows "compute_mutual_information a b = Inr (mi_value (joint_rows a b))"
proof -
  let ?prs = "joint_rows a b"
  have m: "np_and (ne_gap a) (ne_gap b) = Inr (map2 (\<and>) (ne_gap a) (ne_gap b))"
    using assms by (simp add: np_and_def ne_gap_def)
  have ci: "bool_index a (map2 (\<and>) (ne_gap a) (ne_gap b)) = Inr (map fst ?prs)"
    using assms by (simp add: bool_index_def ne_gap_def clean_fst [unfolded ne_gap_def])
  have cj: "bool_index b (map2 (\<and>) (ne_gap a) (ne_gap b)) = Inr (map snd ?prs)"
    using assms by (simp add: bool_index_def ne_gap_def clean_snd [unfolded ne_gap_def])
  have z: "zip (map fst ?prs) (map snd ?prs) = ?prs" by (simp add: zip_map_fst_snd)
  show ?thesis
  proof (cases "?prs = []")
    case True
    then show ?thesis
      by (simp add: compute_mutual_information_def bind_err_def m ci cj mi_value_def)
  next
    case False
    then have pos: "0 < length ?prs" by simp
    show ?thesis
      using False
      by (simp add: compute_mutual_information_def bind_err_def m ci cj z mi_loop_Inr [OF pos]
            mi_value_def)
  qed
qed

section \<open>What the engine computes\<close>

lemma get_column_nat:
  "i < ncols A \<Longrightarrow> get_column A (int i) = Inr (map (\<lambda>r. r ! i) (seqs A))"
  by (simp add: get_column_def py_index_def bind_err_def)

lemma get_column_length: "get_column A pos = Inr col \<Longrightarrow> length col = length (seqs A)"
  by (auto simp: get_column_def py_index_def bind_err_def split: if_splits)

lemma clean3_fst:
  "length a = length b \<Longrightarrow> length b = length c \<Longrightarrow>
     map fst (filter snd (zip a (map2 (\<and>) (map2 (\<and>) (ne_gap a) (ne_gap b)) (ne_gap c))))
       = map fst (joint_rows3 a b c)"
proof (induction a b c rule: list_induct3)
  case Nil
  then show ?case by (simp add: joint_rows3_def)
next
  case (Cons x xs y ys z zs)
  then show ?case by (simp add: joint_rows3_def ne_gap_def)
qed

lemma clean3_snd:
  "length a = length b \<Longrightarrow> length b = length c \<Longrightarrow>
     map fst (filter snd (zip b (map2 (\<and>) (map2 (\<and>) (ne_gap a) (ne_gap b)) (ne_gap c))))
       = map (fst \<circ> snd) (joint_rows3 a b c)"
proof (induction a b c rule: list_induct3)
  case Nil
  then show ?case by (simp add: joint_rows3_def)
next
  case (Cons x xs y ys z zs)
  then show ?case by (simp add: joint_rows3_def ne_gap_def)
qed

lemma clean3_thd:
  "length a = length b \<Longrightarrow> length b = length c \<Longrightarrow>
     map fst (filter snd (zip c (map2 (\<and>) (map2 (\<and>) (ne_gap a) (ne_gap b)) (ne_gap c))))
       = map (snd \<circ> snd) (joint_rows3 a b c)"
proof (induction a b c rule: list_induct3)
  case Nil
  then show ?case by (simp add: joint_rows3_def)
next
  case (Cons x xs y ys z zs)
  then show ?case by (simp add: joint_rows3_def ne_gap_def)
qed

lemma zip3_proj: "zip (map fst trs) (zip (map (fst \<circ> snd) trs) (map (snd \<circ> snd) trs)) = trs"
  by (induction trs) auto

lemma compute_triplet_mi_value:
  assumes ci: "get_column A pos_i = Inr a" and cj: "get_column A pos_j = Inr b"
    and ck: "get_column A pos_k = Inr c"
  shows "compute_triplet_mi A pos_i pos_j pos_k = Inr (mi3_value (joint_rows3 a b c))"
proof -
  let ?trs = "joint_rows3 a b c"
  let ?m = "map2 (\<and>) (map2 (\<and>) (ne_gap a) (ne_gap b)) (ne_gap c)"
  have ab: "length a = length b" and bc: "length b = length c"
    using get_column_length [OF ci] get_column_length [OF cj] get_column_length [OF ck]
    by simp_all
  have m1: "np_and (ne_gap a) (ne_gap b) = Inr (map2 (\<and>) (ne_gap a) (ne_gap b))"
    using ab by (simp add: np_and_def ne_gap_def)
  have m2: "np_and (map2 (\<and>) (ne_gap a) (ne_gap b)) (ne_gap c) = Inr ?m"
    using ab bc by (simp add: np_and_def ne_gap_def)
  have bi: "bool_index a ?m = Inr (map fst ?trs)"
    using ab bc by (simp add: bool_index_def ne_gap_def clean3_fst [unfolded ne_gap_def])
  have bj: "bool_index b ?m = Inr (map (fst \<circ> snd) ?trs)"
    using ab bc by (simp add: bool_index_def ne_gap_def clean3_snd [unfolded ne_gap_def])
  have bk: "bool_index c ?m = Inr (map (snd \<circ> snd) ?trs)"
    using ab bc by (simp add: bool_index_def ne_gap_def clean3_thd [unfolded ne_gap_def])
  show ?thesis
  proof (cases "length ?trs < 10")
    case True
    then show ?thesis
      by (simp add: compute_triplet_mi_def bind_err_def ci cj ck m1 m2 bi bj bk mi3_value_def)
  next
    case False
    then have pos: "0 < length ?trs" by linarith
    show ?thesis
      using False
      by (simp add: compute_triplet_mi_def bind_err_def ci cj ck m1 m2 bi bj bk zip3_proj
            mi3_loop_Inr [OF pos] mi3_value_def)
  qed
qed

lemma compute_connected_triplet_mi_value:
  assumes ci: "get_column A pos_i = Inr a" and cj: "get_column A pos_j = Inr b"
    and ck: "get_column A pos_k = Inr c"
  shows "compute_connected_triplet_mi A pos_i pos_j pos_k
           = Inr (mi3_value (joint_rows3 a b c)
                  - (mi_value (joint_rows a b) + mi_value (joint_rows a c) + mi_value (joint_rows b c)))"
proof -
  have ab: "length a = length b" and bc: "length b = length c" and ac: "length a = length c"
    using get_column_length [OF ci] get_column_length [OF cj] get_column_length [OF ck]
    by simp_all
  show ?thesis
    by (simp add: compute_connected_triplet_mi_def bind_err_def ci cj ck
          compute_triplet_mi_value [OF ci cj ck] compute_mutual_information_value [OF ab]
          compute_mutual_information_value [OF bc] compute_mutual_information_value [OF ac])
qed

lemma mi_value_nonneg: "0 \<le> mi_value prs"
  by (simp add: mi_value_def)

lemma mi3_value_nonneg: "0 \<le> mi3_value trs"
  by (simp add: mi3_value_def)

lemma compute_mutual_information_mismatch:
  assumes "length a \<noteq> length b"
  shows "compute_mutual_information a b = Inr 0 \<or> (\<exists>e. compute_mutual_information a b = Inl e)"
proof -
  consider (va) "length a = 1" "b = []" | (va') "length a = 1" "b \<noteq> []"
    | (vb) "length b = 1" "a = []" | (vb') "length b = 1" "a \<noteq> []"
    | (neither) "length a \<noteq> 1" "length b \<noteq> 1" by blast
  then show ?thesis
  proof cases
    case va
    then show ?thesis
      by (simp add: compute_mutual_information_def bind_err_def np_and_def ne_gap_def bool_index_def)
  next
    case va'
    then show ?thesis using assms
      by (simp add: compute_mutual_information_def bind_err_def np_and_def ne_gap_def bool_index_def)
  next
    case vb
    then show ?thesis
      by (simp add: compute_mutual_information_def bind_err_def np_and_def ne_gap_def bool_index_def)
  next
    case vb'
    then show ?thesis using assms
      by (simp add: compute_mutual_information_def bind_err_def np_and_def ne_gap_def bool_index_def)
  next
    case neither
    then show ?thesis using assms
      by (simp add: compute_mutual_information_def bind_err_def np_and_def ne_gap_def)
  qed
qed

lemma compute_triplet_mi_Inr_columns:
  assumes "compute_triplet_mi A pos_i pos_j pos_k = Inr r"
  shows "\<exists>a b c. get_column A pos_i = Inr a \<and> get_column A pos_j = Inr b
                  \<and> get_column A pos_k = Inr c"
  using assms by (auto simp: compute_triplet_mi_def bind_err_def split: sum.splits)

lemma joint_rows3_length:
  "i < ncols A \<Longrightarrow> j < ncols A \<Longrightarrow> k < ncols A \<Longrightarrow>
   length (joint_rows3 (map (\<lambda>r. r ! i) rs) (map (\<lambda>r. r ! j) rs) (map (\<lambda>r. r ! k) rs))
     = length (filter (\<lambda>r. r ! i \<noteq> gap \<and> r ! j \<noteq> gap \<and> r ! k \<noteq> gap) rs)"
  by (induction rs) (simp_all add: joint_rows3_def)

text \<open>The definitions a concrete run unfolds.\<close>

lemmas run_defs = compute_mutual_information_def compute_triplet_mi_def
  compute_connected_triplet_mi_def bind_err_def np_and_def ne_gap_def bool_index_def
  Counter_def counter_get_def py_truediv_def float_div_def np_log2_def get_column_def py_index_def
  gap_def

lemma get_column_valid:
  "valid_pos A pos \<Longrightarrow> \<exists>col. get_column A pos = Inr col"
  by (auto simp: valid_pos_def get_column_def py_index_def bind_err_def)

lemma get_column_invalid:
  "\<not> valid_pos A pos \<Longrightarrow> get_column A pos = Inl IndexError"
  by (auto simp: valid_pos_def get_column_def py_index_def bind_err_def)

lemma mi3_value_below_floor:
  assumes "i < ncols A" and "j < ncols A" and "k < ncols A"
    and "jointly_nongap3 A i j k < 10"
  shows "mi3_value (joint_rows3 (map (\<lambda>r. r ! i) (seqs A)) (map (\<lambda>r. r ! j) (seqs A))
                      (map (\<lambda>r. r ! k) (seqs A))) = 0"
proof -
  have "length (joint_rows3 (map (\<lambda>r. r ! i) (seqs A)) (map (\<lambda>r. r ! j) (seqs A))
                  (map (\<lambda>r. r ! k) (seqs A))) < 10"
    using assms by (simp add: joint_rows3_length jointly_nongap3_def)
  then show ?thesis by (simp add: mi3_value_def)
qed

section \<open>The sample-size floor\<close>

text \<open>
  C5. For valid column indices \<open>i\<close>, \<open>j\<close>, \<open>k\<close>: if fewer than 10 rows of the
  alignment are non-gap in all three columns, \<open>compute_triplet_mi\<close> returns exactly 0.0.
\<close>

theorem compute_triplet_mi_sample_floor:
  assumes "i < ncols A" and "j < ncols A" and "k < ncols A"
    and "jointly_nongap3 A i j k < 10"
  shows "compute_triplet_mi A (int i) (int j) (int k) = Inr 0"
  using compute_triplet_mi_value [OF get_column_nat [OF assms(1)] get_column_nat [OF assms(2)]
      get_column_nat [OF assms(3)]] mi3_value_below_floor [OF assms]
  by simp

theorem compute_triplet_mi_sample_floor_witness:
  "(0::nat) < ncols ex_nine \<and> (1::nat) < ncols ex_nine \<and> (2::nat) < ncols ex_nine
   \<and> jointly_nongap3 ex_nine 0 1 2 = 9
   \<and> compute_triplet_mi ex_nine (int 0) (int 1) (int 2) = Inr 0"
proof -
  have h0: "(0::nat) < ncols ex_nine" and h1: "(1::nat) < ncols ex_nine"
    and h2: "(2::nat) < ncols ex_nine"
    by (simp_all add: ex_nine_def)
  have n: "jointly_nongap3 ex_nine 0 1 2 = 9"
    by (simp add: jointly_nongap3_def ex_nine_def gap_def)
  then have h3: "jointly_nongap3 ex_nine 0 1 2 < 10" by simp
  show ?thesis
    using compute_triplet_mi_sample_floor [OF h0 h1 h2 h3] h0 h1 h2 n by simp
qed

text \<open>
  C1, as stated: with fewer than 10 jointly non-gap rows \<open>compute_connected_triplet_mi\<close>
  returns exactly 0.0. This does not hold. The function subtracts the three pairwise
  mutual informations from the raw triple value, and each of them is computed on its own
  pair of columns, whatever the triple's sample size. In \<open>ex_nine\<close> nine rows are jointly
  non-gap, the raw triple value is 0, columns 0 and 1 have mutual information 1 over
  their ten rows, and the connected value is \<open>-1\<close>.
\<close>

theorem connected_triplet_mi_floor_counterexample:
  "jointly_nongap3 ex_nine 0 1 2 = 9
   \<and> compute_connected_triplet_mi ex_nine 0 1 2 = Inr (- 1)
   \<and> compute_connected_triplet_mi ex_nine 0 1 2 \<noteq> Inr 0"
  by (simp add: run_defs jointly_nongap3_def ex_nine_def)

text \<open>
  C1, amended. With fewer than 10 jointly non-gap rows \<open>compute_triplet_mi\<close> contributes
  0.0, and \<open>compute_connected_triplet_mi\<close> returns 0.0 minus the sum of the three pairwise
  mutual informations of the columns. Each pairwise value is non-negative, so the result
  is never positive, and it is 0.0 exactly when all three pairwise values are 0.0.
\<close>

theorem connected_triplet_mi_below_floor:
  assumes "i < ncols A" and "j < ncols A" and "k < ncols A"
    and "jointly_nongap3 A i j k < 10"
  shows "compute_triplet_mi A (int i) (int j) (int k) = Inr 0
         \<and> (\<exists>ci cj ck mi_ij mi_ik mi_jk.
               get_column A (int i) = Inr ci \<and> get_column A (int j) = Inr cj
               \<and> get_column A (int k) = Inr ck
               \<and> compute_mutual_information ci cj = Inr mi_ij
               \<and> compute_mutual_information ci ck = Inr mi_ik
               \<and> compute_mutual_information cj ck = Inr mi_jk
               \<and> 0 \<le> mi_ij \<and> 0 \<le> mi_ik \<and> 0 \<le> mi_jk
               \<and> compute_connected_triplet_mi A (int i) (int j) (int k)
                    = Inr (0 - (mi_ij + mi_ik + mi_jk))
               \<and> 0 - (mi_ij + mi_ik + mi_jk) \<le> 0
               \<and> (compute_connected_triplet_mi A (int i) (int j) (int k) = Inr 0
                    \<longleftrightarrow> mi_ij = 0 \<and> mi_ik = 0 \<and> mi_jk = 0))"
proof -
  let ?a = "map (\<lambda>r. r ! i) (seqs A)"
  let ?b = "map (\<lambda>r. r ! j) (seqs A)"
  let ?c = "map (\<lambda>r. r ! k) (seqs A)"
  let ?ab = "mi_value (joint_rows ?a ?b)"
  let ?ac = "mi_value (joint_rows ?a ?c)"
  let ?bc = "mi_value (joint_rows ?b ?c)"
  note ci = get_column_nat [OF assms(1)] and cj = get_column_nat [OF assms(2)]
    and ck = get_column_nat [OF assms(3)]
  have len: "length ?a = length ?b" "length ?a = length ?c" "length ?b = length ?c"
    by simp_all
  have t: "compute_triplet_mi A (int i) (int j) (int k) = Inr 0"
    using compute_triplet_mi_value [OF ci cj ck] mi3_value_below_floor [OF assms] by simp
  have c: "compute_connected_triplet_mi A (int i) (int j) (int k) = Inr (0 - (?ab + ?ac + ?bc))"
    using compute_connected_triplet_mi_value [OF ci cj ck] mi3_value_below_floor [OF assms]
    by simp
  have nn: "0 \<le> ?ab" "0 \<le> ?ac" "0 \<le> ?bc"
    by (rule mi_value_nonneg)+
  have le: "0 - (?ab + ?ac + ?bc) \<le> 0"
    using nn by linarith
  have z: "compute_connected_triplet_mi A (int i) (int j) (int k) = Inr 0
             \<longleftrightarrow> ?ab = 0 \<and> ?ac = 0 \<and> ?bc = 0"
  proof -
    have "0 - (?ab + ?ac + ?bc) = 0 \<longleftrightarrow> ?ab = 0 \<and> ?ac = 0 \<and> ?bc = 0"
      using nn by linarith
    then show ?thesis by (simp only: c sum.inject)
  qed
  have "\<exists>ci cj ck mi_ij mi_ik mi_jk.
          get_column A (int i) = Inr ci \<and> get_column A (int j) = Inr cj
          \<and> get_column A (int k) = Inr ck
          \<and> compute_mutual_information ci cj = Inr mi_ij
          \<and> compute_mutual_information ci ck = Inr mi_ik
          \<and> compute_mutual_information cj ck = Inr mi_jk
          \<and> 0 \<le> mi_ij \<and> 0 \<le> mi_ik \<and> 0 \<le> mi_jk
          \<and> compute_connected_triplet_mi A (int i) (int j) (int k)
               = Inr (0 - (mi_ij + mi_ik + mi_jk))
          \<and> 0 - (mi_ij + mi_ik + mi_jk) \<le> 0
          \<and> (compute_connected_triplet_mi A (int i) (int j) (int k) = Inr 0
               \<longleftrightarrow> mi_ij = 0 \<and> mi_ik = 0 \<and> mi_jk = 0)"
    using ci cj ck c nn le z compute_mutual_information_value [OF len(1)]
      compute_mutual_information_value [OF len(2)] compute_mutual_information_value [OF len(3)]
    by blast
  with t show ?thesis by (rule conjI)
qed

theorem connected_triplet_mi_below_floor_witness:
  "(0::nat) < ncols ex_nine \<and> (1::nat) < ncols ex_nine \<and> (2::nat) < ncols ex_nine
   \<and> jointly_nongap3 ex_nine 0 1 2 < 10
   \<and> compute_triplet_mi ex_nine (int 0) (int 1) (int 2) = Inr 0
   \<and> (\<exists>ci cj ck mi_ij mi_ik mi_jk.
           get_column ex_nine (int 0) = Inr ci \<and> get_column ex_nine (int 1) = Inr cj
           \<and> get_column ex_nine (int 2) = Inr ck
           \<and> compute_mutual_information ci cj = Inr mi_ij
           \<and> compute_mutual_information ci ck = Inr mi_ik
           \<and> compute_mutual_information cj ck = Inr mi_jk
           \<and> 0 \<le> mi_ij \<and> 0 \<le> mi_ik \<and> 0 \<le> mi_jk
           \<and> compute_connected_triplet_mi ex_nine (int 0) (int 1) (int 2)
                = Inr (0 - (mi_ij + mi_ik + mi_jk))
           \<and> 0 - (mi_ij + mi_ik + mi_jk) \<le> 0
           \<and> (compute_connected_triplet_mi ex_nine (int 0) (int 1) (int 2) = Inr 0
                \<longleftrightarrow> mi_ij = 0 \<and> mi_ik = 0 \<and> mi_jk = 0))"
proof -
  have h0: "(0::nat) < ncols ex_nine" and h1: "(1::nat) < ncols ex_nine"
    and h2: "(2::nat) < ncols ex_nine"
    by (simp_all add: ex_nine_def)
  have h3: "jointly_nongap3 ex_nine 0 1 2 < 10"
    by (simp add: jointly_nongap3_def ex_nine_def gap_def)
  show ?thesis
    using connected_triplet_mi_below_floor [OF h0 h1 h2 h3] h0 h1 h2 h3 by blast
qed

section \<open>Connected mutual information\<close>

text \<open>
  C2. For valid positions, \<open>compute_connected_triplet_mi\<close> returns the raw triple value
  minus the sum of the three values of \<open>compute_mutual_information\<close> on the column pairs
  (i,j), (i,k) and (j,k). Each pairwise value is computed from the full columns, so it is
  filtered by the gap mask of its own pair (\<open>joint_rows\<close> of the two columns), not by the
  triple's mask. Nothing clamps the difference: it is signed.
\<close>

theorem connected_triplet_mi_decomposition:
  assumes "get_column A pos_i = Inr col_i" and "get_column A pos_j = Inr col_j"
    and "get_column A pos_k = Inr col_k"
  shows "\<exists>mi_ijk mi_ij mi_ik mi_jk.
           compute_triplet_mi A pos_i pos_j pos_k = Inr mi_ijk
           \<and> compute_mutual_information col_i col_j = Inr mi_ij
           \<and> compute_mutual_information col_i col_k = Inr mi_ik
           \<and> compute_mutual_information col_j col_k = Inr mi_jk
           \<and> mi_ij = mi_value (joint_rows col_i col_j)
           \<and> mi_ik = mi_value (joint_rows col_i col_k)
           \<and> mi_jk = mi_value (joint_rows col_j col_k)
           \<and> compute_connected_triplet_mi A pos_i pos_j pos_k
                = Inr (mi_ijk - (mi_ij + mi_ik + mi_jk))"
proof -
  have len: "length col_i = length col_j" "length col_i = length col_k"
    "length col_j = length col_k"
    using get_column_length [OF assms(1)] get_column_length [OF assms(2)]
      get_column_length [OF assms(3)] by simp_all
  show ?thesis
    using compute_triplet_mi_value [OF assms] compute_connected_triplet_mi_value [OF assms]
      compute_mutual_information_value [OF len(1)] compute_mutual_information_value [OF len(2)]
      compute_mutual_information_value [OF len(3)]
    by simp
qed

theorem connected_triplet_mi_decomposition_witness:
  "get_column ex_nine 0 = Inr ''AAAAABBBBB'' \<and> get_column ex_nine 1 = Inr ''AAAAABBBBB''
   \<and> get_column ex_nine 2 = Inr ''CCCCCCCCC-''
   \<and> compute_triplet_mi ex_nine 0 1 2 = Inr 0
   \<and> compute_mutual_information ''AAAAABBBBB'' ''AAAAABBBBB'' = Inr 1
   \<and> length (joint_rows ''AAAAABBBBB'' ''AAAAABBBBB'') = 10
   \<and> compute_mutual_information ''AAAAABBBBB'' ''CCCCCCCCC-'' = Inr 0
   \<and> compute_connected_triplet_mi ex_nine 0 1 2 = Inr (0 - (1 + 0 + 0))
   \<and> compute_connected_triplet_mi ex_nine 0 1 2 = Inr (- 1)"
proof -
  have c0: "get_column ex_nine 0 = Inr ''AAAAABBBBB''"
    and c1: "get_column ex_nine 1 = Inr ''AAAAABBBBB''"
    and c2: "get_column ex_nine 2 = Inr ''CCCCCCCCC-''"
    by (simp_all add: get_column_def py_index_def bind_err_def ex_nine_def)
  have t: "compute_triplet_mi ex_nine 0 1 2 = Inr 0"
    by (simp add: run_defs ex_nine_def)
  have m01: "compute_mutual_information ''AAAAABBBBB'' ''AAAAABBBBB'' = Inr 1"
    by (simp add: run_defs)
  have m02: "compute_mutual_information ''AAAAABBBBB'' ''CCCCCCCCC-'' = Inr 0"
    by (simp add: run_defs)
  have l: "length (joint_rows ''AAAAABBBBB'' ''AAAAABBBBB'') = 10"
    by (simp add: joint_rows_def gap_def)
  show ?thesis
    using connected_triplet_mi_decomposition [OF c0 c1 c2] c0 c1 c2 t m01 m02 l by auto
qed

section \<open>Non-negativity\<close>

lemma compute_mutual_information_cases:
  "case compute_mutual_information col_i col_j of
     Inr mi \<Rightarrow> 0 \<le> mi | Inl e \<Rightarrow> length col_i \<noteq> length col_j"
proof (cases "length col_i = length col_j")
  case True
  then show ?thesis
    by (simp add: compute_mutual_information_value mi_value_nonneg)
next
  case False
  from compute_mutual_information_mismatch [OF this] show ?thesis
    using False by auto
qed

lemma compute_triplet_mi_Inr_nonneg:
  assumes "compute_triplet_mi A pos_i pos_j pos_k = Inr r"
  shows "0 \<le> r"
proof -
  from compute_triplet_mi_Inr_columns [OF assms] obtain a b c
    where cols: "get_column A pos_i = Inr a" "get_column A pos_j = Inr b"
      "get_column A pos_k = Inr c" by blast
  have "compute_triplet_mi A pos_i pos_j pos_k = Inr (mi3_value (joint_rows3 a b c))"
    using cols by (rule compute_triplet_mi_value)
  with assms have "r = mi3_value (joint_rows3 a b c)" by simp
  then show ?thesis by (simp only: mi3_value_nonneg)
qed

lemma compute_triplet_mi_Inl_invalid:
  assumes "compute_triplet_mi A pos_i pos_j pos_k = Inl e"
  shows "\<not> (valid_pos A pos_i \<and> valid_pos A pos_j \<and> valid_pos A pos_k)"
proof
  assume v: "valid_pos A pos_i \<and> valid_pos A pos_j \<and> valid_pos A pos_k"
  obtain a where a: "get_column A pos_i = Inr a" using v get_column_valid by blast
  obtain b where b: "get_column A pos_j = Inr b" using v get_column_valid by blast
  obtain c where c: "get_column A pos_k = Inr c" using v get_column_valid by blast
  have "compute_triplet_mi A pos_i pos_j pos_k = Inr (mi3_value (joint_rows3 a b c))"
    using a b c by (rule compute_triplet_mi_value)
  with assms show False by simp
qed

text \<open>
  C4. \<open>compute_mutual_information\<close> and \<open>compute_triplet_mi\<close> never return a negative
  value. They raise only on ill-shaped input: columns of different lengths, or a column
  position outside the array.
\<close>

theorem mutual_information_nonnegative:
  "(case compute_mutual_information col_i col_j of
      Inr mi \<Rightarrow> 0 \<le> mi | Inl e \<Rightarrow> length col_i \<noteq> length col_j)
   \<and> (case compute_triplet_mi A pos_i pos_j pos_k of
        Inr mi3 \<Rightarrow> 0 \<le> mi3
      | Inl e \<Rightarrow> \<not> (valid_pos A pos_i \<and> valid_pos A pos_j \<and> valid_pos A pos_k))"
proof (rule conjI)
  show "case compute_mutual_information col_i col_j of
          Inr mi \<Rightarrow> 0 \<le> mi | Inl e \<Rightarrow> length col_i \<noteq> length col_j"
    by (rule compute_mutual_information_cases)
next
  show "case compute_triplet_mi A pos_i pos_j pos_k of
          Inr mi3 \<Rightarrow> 0 \<le> mi3
        | Inl e \<Rightarrow> \<not> (valid_pos A pos_i \<and> valid_pos A pos_j \<and> valid_pos A pos_k)"
  proof (cases "compute_triplet_mi A pos_i pos_j pos_k")
    case (Inl e)
    from compute_triplet_mi_Inl_invalid [OF this] Inl show ?thesis by simp
  next
    case (Inr r)
    from compute_triplet_mi_Inr_nonneg [OF this] Inr show ?thesis by simp
  qed
qed

theorem mutual_information_nonnegative_witness:
  "compute_mutual_information ''AAAA'' ''AAAA'' = Inr 0
   \<and> compute_mutual_information ''----'' ''ACDE'' = Inr 0
   \<and> compute_triplet_mi ex_flat 0 1 1 = Inr 0
   \<and> compute_triplet_mi ex_flat 0 1 2 = Inr 0
   \<and> compute_triplet_mi ex_flat 0 1 3 = Inl IndexError \<and> \<not> valid_pos ex_flat 3"
proof -
  have a: "compute_mutual_information ''AAAA'' ''AAAA'' = Inr 0"
    and b: "compute_mutual_information ''----'' ''ACDE'' = Inr 0"
    by (simp_all add: run_defs)
  have c: "compute_triplet_mi ex_flat 0 1 1 = Inr 0"
    by (simp add: run_defs ex_flat_def)
  have d: "compute_triplet_mi ex_flat 0 1 2 = Inr 0"
    by (simp add: run_defs ex_flat_def)
  have e: "compute_triplet_mi ex_flat 0 1 3 = Inl IndexError"
    by (simp add: run_defs ex_flat_def)
  show ?thesis
    using mutual_information_nonnegative [of "''AAAA''" "''AAAA''" ex_flat 0 1 3] a b c d e
    by (simp add: valid_pos_def ex_flat_def)
qed

section \<open>No rows left after the gap mask\<close>

lemma joint_rows_empty:
  "\<forall>(x, y) \<in> set (zip a b). x = gap \<or> y = gap \<Longrightarrow> joint_rows a b = []"
  by (auto simp: joint_rows_def filter_empty_conv)

text \<open>
  C8. When no row is non-gap in both columns, \<open>compute_mutual_information\<close> returns 0.0
  and does not raise: the early return comes before any division, and the result is a
  value (\<open>Inr\<close>), not an error.
\<close>

theorem mutual_information_zero_rows:
  assumes "length col_i = length col_j"
    and "\<forall>(x, y) \<in> set (zip col_i col_j). x = gap \<or> y = gap"
  shows "compute_mutual_information col_i col_j = Inr 0"
  using compute_mutual_information_value [OF assms(1)] joint_rows_empty [OF assms(2)]
  by (simp add: mi_value_def)

theorem mutual_information_zero_rows_witness:
  "length ''A-C-'' = length ''-D-E''
   \<and> zip ''A-C-'' ''-D-E'' = [(CHR ''A'', gap), (gap, CHR ''D''), (CHR ''C'', gap), (gap, CHR ''E'')]
   \<and> compute_mutual_information ''A-C-'' ''-D-E'' = Inr 0"
proof -
  have h1: "length ''A-C-'' = length ''-D-E''" by simp
  have h2: "\<forall>(x, y) \<in> set (zip ''A-C-'' ''-D-E''). x = gap \<or> y = gap"
    by (simp add: gap_def)
  show ?thesis
    using mutual_information_zero_rows [OF h1 h2] h1 by (simp add: gap_def)
qed

section \<open>Gap exclusion\<close>

lemma joint_rows_append_gaps:
  assumes "length a = length b"
  shows "joint_rows (a @ replicate n gap) (b @ replicate n gap) = joint_rows a b"
proof -
  have "filter (\<lambda>(x, y). x \<noteq> gap \<and> y \<noteq> gap) (zip (replicate n gap) (replicate n gap)) = []"
    by (auto simp: filter_empty_conv set_zip)
  then show ?thesis
    using assms by (simp add: joint_rows_def)
qed

text \<open>
  C7. Appending rows that are gaps in both columns to two columns of equal length does
  not change the result of \<open>compute_mutual_information\<close>.
\<close>

theorem mutual_information_ignores_gap_rows:
  assumes "length col_i = length col_j"
  shows "compute_mutual_information (col_i @ replicate n gap) (col_j @ replicate n gap)
           = compute_mutual_information col_i col_j"
proof -
  have "length (col_i @ replicate n gap) = length (col_j @ replicate n gap)"
    using assms by simp
  then show ?thesis
    by (simp only: compute_mutual_information_value assms joint_rows_append_gaps)
qed

theorem mutual_information_ignores_gap_rows_witness:
  "length ''AABB'' = length ''CCDD''
   \<and> compute_mutual_information (''AABB'' @ replicate 2 gap) (''CCDD'' @ replicate 2 gap) = Inr 1
   \<and> compute_mutual_information ''AABB'' ''CCDD'' = Inr 1"
proof -
  have h: "length ''AABB'' = length ''CCDD''" by simp
  have v: "compute_mutual_information ''AABB'' ''CCDD'' = Inr 1"
    by (simp add: run_defs)
  show ?thesis
    using mutual_information_ignores_gap_rows [OF h, of 2] h v by simp
qed

section \<open>Symmetry\<close>

text \<open>
  Renaming the keys of a Counter by an injective function keeps its order and counts;
  swapping the two columns swaps the components of every key.
\<close>

lemma counter_add_map:
  assumes "inj f"
  shows "counter_add (f x) (map (apfst f) cnt) = map (apfst f) (counter_add x cnt)"
proof (induction cnt)
  case Nil
  then show ?case by simp
next
  case (Cons kc cnt)
  obtain k c where kc: "kc = (k, c)" by (cases kc)
  have "f k = f x \<longleftrightarrow> k = x" using assms by (simp add: inj_eq)
  then show ?case using Cons.IH by (simp add: kc)
qed

lemma Counter_fold_map:
  assumes "inj f"
  shows "foldl (\<lambda>c x. counter_add x c) (map (apfst f) acc) (map f xs)
           = map (apfst f) (foldl (\<lambda>c x. counter_add x c) acc xs)"
proof (induction xs arbitrary: acc)
  case Nil
  then show ?case by simp
next
  case (Cons x xs)
  show ?case
    using Cons.IH [of "counter_add x acc"] by (simp add: counter_add_map [OF assms])
qed

lemma Counter_map:
  assumes "inj f"
  shows "Counter (map f xs) = map (apfst f) (Counter xs)"
  using Counter_fold_map [OF assms, of "[]" xs] by (simp add: Counter_def)

lemma joint_rows_swap: "joint_rows b a = map prod.swap (joint_rows a b)"
proof -
  have "zip b a = map prod.swap (zip a b)"
    by (simp add: zip_commute [of b a] prod.swap_def case_prod_unfold)
  then show ?thesis
    by (auto simp: joint_rows_def filter_map o_def case_prod_unfold intro!: arg_cong [where f = "map prod.swap"] filter_cong)
qed

lemma mi_term_swap:
  "mi_term tot cj ci (apfst prod.swap item) = mi_term tot ci cj item"
proof -
  obtain a b n where item: "item = ((a, b), n)" by (metis surj_pair)
  show ?thesis
    by (simp add: item mi_term_def Let_def mult.commute conj_commute)
qed

lemma mi_value_swap: "mi_value (map prod.swap prs) = mi_value prs"
proof -
  have inj: "inj (prod.swap :: char \<times> char \<Rightarrow> char \<times> char)" by simp
  have f: "map fst (map prod.swap prs) = map snd prs" and s: "map snd (map prod.swap prs) = map fst prs"
    by (simp_all add: o_def)
  have "foldl (\<lambda>acc item. acc + mi_term (length prs) (Counter (map snd prs)) (Counter (map fst prs)) item)
          z (map (apfst prod.swap) items)
        = foldl (\<lambda>acc item. acc + mi_term (length prs) (Counter (map fst prs)) (Counter (map snd prs)) item)
          z items" for z items
    by (induction items arbitrary: z) (simp_all add: mi_term_swap)
  then show ?thesis
    unfolding mi_value_def f s by (simp add: Counter_map [OF inj])
qed

text \<open>
  C6. For two columns of equal length, \<open>compute_mutual_information\<close> gives the same
  result in either argument order. The terms are added in the same order in both calls;
  only the factors of the product of the marginals are exchanged.
\<close>

theorem mutual_information_symmetric:
  assumes "length col_i = length col_j"
  shows "compute_mutual_information col_i col_j = compute_mutual_information col_j col_i"
proof -
  have "compute_mutual_information col_j col_i = Inr (mi_value (joint_rows col_j col_i))"
    using assms by (simp add: compute_mutual_information_value)
  also have "\<dots> = Inr (mi_value (joint_rows col_i col_j))"
    by (simp only: joint_rows_swap [of col_j col_i] mi_value_swap)
  also have "\<dots> = compute_mutual_information col_i col_j"
    using assms by (simp add: compute_mutual_information_value)
  finally show ?thesis by simp
qed

theorem mutual_information_symmetric_witness:
  "length ''AABB-A'' = length ''CCDDE-''
   \<and> compute_mutual_information ''AABB-A'' ''CCDDE-'' = Inr 1
   \<and> compute_mutual_information ''CCDDE-'' ''AABB-A'' = Inr 1"
proof -
  have h: "length ''AABB-A'' = length ''CCDDE-''" by simp
  have v: "compute_mutual_information ''AABB-A'' ''CCDDE-'' = Inr 1"
    by (simp add: run_defs)
  show ?thesis
    using mutual_information_symmetric [OF h] h v by simp
qed

section \<open>Counters, sorting and slicing\<close>

text \<open>
  A Counter built from a list has each element of the list as a key exactly once, with
  the number of its occurrences as the count; the counts add up to the length.
\<close>

lemma counter_add_keys:
  "map fst (counter_add x cnt) = (if x \<in> fst ` set cnt then map fst cnt else map fst cnt @ [x])"
proof (induction cnt)
  case Nil
  then show ?case by simp
next
  case (Cons kc cnt)
  obtain k c where kc: "kc = (k, c)" by (cases kc)
  show ?case
  proof (cases "k = x")
    case True
    then show ?thesis by (simp add: kc)
  next
    case False
    then show ?thesis using Cons.IH by (simp add: kc)
  qed
qed

lemma counter_add_distinct:
  "distinct (map fst cnt) \<Longrightarrow> distinct (map fst (counter_add x cnt))"
  by (simp add: counter_add_keys)

lemma counter_add_map_of:
  "map_of (counter_add x cnt) k
     = (if k = x then Some (case map_of cnt x of None \<Rightarrow> 1 | Some n \<Rightarrow> Suc n) else map_of cnt k)"
  by (induction cnt) auto

lemma counter_add_sum:
  "sum_list (map snd (counter_add x cnt)) = Suc (sum_list (map snd cnt))"
  by (induction cnt) auto

lemma Counter_snoc: "Counter (xs @ [x]) = counter_add x (Counter xs)"
  by (simp add: Counter_def)

lemma Counter_distinct: "distinct (map fst (Counter xs))"
proof (induction xs rule: rev_induct)
  case Nil
  then show ?case by (simp add: Counter_def)
next
  case (snoc x xs)
  then show ?case by (simp only: Counter_snoc counter_add_distinct)
qed

lemma Counter_map_of:
  "map_of (Counter xs) k = (if k \<in> set xs then Some (count_list xs k) else None)"
proof (induction xs rule: rev_induct)
  case Nil
  then show ?case by (simp add: Counter_def)
next
  case (snoc x xs)
  then show ?case by (auto simp: Counter_snoc counter_add_map_of)
qed

lemma Counter_keys: "set (map fst (Counter xs)) = set xs"
proof -
  have "fst ` set (Counter xs) = dom (map_of (Counter xs))" by (simp add: dom_map_of_conv_image_fst)
  also have "\<dots> = set xs" by (auto simp: dom_def Counter_map_of)
  finally show ?thesis by simp
qed

lemma Counter_count: "(k, c) \<in> set (Counter xs) \<Longrightarrow> c = count_list xs k"
proof -
  assume "(k, c) \<in> set (Counter xs)"
  then have "map_of (Counter xs) k = Some c" using Counter_distinct [of xs] by simp
  then show ?thesis by (simp add: Counter_map_of split: if_splits)
qed

lemma Counter_sum: "sum_list (map snd (Counter xs)) = length xs"
proof (induction xs rule: rev_induct)
  case Nil
  then show ?case by (simp add: Counter_def)
next
  case (snoc x xs)
  then show ?case by (simp add: Counter_snoc counter_add_sum)
qed

text \<open>The descending stable sort permutes its input and orders it by key.\<close>

lemma sum_list_insort_key:
  "sum_list (map f (insort_key k x xs)) = f x + sum_list (map f xs)"
  for f :: "'a \<Rightarrow> 'b::comm_monoid_add"
  by (induction xs) (simp_all add: add.left_commute)

lemma sum_list_sort_key:
  "sum_list (map f (sort_key k xs)) = sum_list (map f xs)"
  for f :: "'a \<Rightarrow> 'b::comm_monoid_add"
  by (induction xs) (simp_all add: sum_list_insort_key)

lemma sorted_reverse_set: "set (sorted_reverse key xs) = set xs"
  by (simp add: sorted_reverse_def)

lemma sorted_reverse_length: "length (sorted_reverse key xs) = length xs"
  by (simp add: sorted_reverse_def)

lemma distinct_map_insort_key:
  "distinct (map g (insort_key k x xs)) \<longleftrightarrow> g x \<notin> g ` set xs \<and> distinct (map g xs)"
  by (induction xs) (auto simp: set_insort_key)

lemma distinct_map_sort_key: "distinct (map g (sort_key k xs)) \<longleftrightarrow> distinct (map g xs)"
  by (induction xs) (simp_all add: distinct_map_insort_key)

lemma sorted_reverse_distinct: "distinct (map g (sorted_reverse key xs)) = distinct (map g xs)"
  by (simp add: sorted_reverse_def distinct_map_sort_key)

lemma sorted_reverse_descending:
  "sorted_wrt (\<lambda>x y. key y \<le> key x) (sorted_reverse key xs)"
proof -
  have "sorted (map (\<lambda>x. - key x) (sort_key (\<lambda>x. - key x) xs))" by (rule sorted_sort_key)
  then show ?thesis
    by (simp add: sorted_reverse_def sorted_wrt_map)
qed

lemma format_pairs_Inr:
  "0 < tot \<Longrightarrow> format_pairs tot items
     = Inr (map (\<lambda>((aa_i, aa_j), c). (aa_i, aa_j, real c / real tot, c)) items)"
proof (induction items)
  case Nil
  then show ?case by simp
next
  case (Cons item items)
  obtain a b c where item: "item = ((a, b), c)" by (metis surj_pair)
  show ?case using Cons by (simp add: item bind_err_def py_truediv_def)
qed

lemma slice_to_nonneg: "0 \<le> n \<Longrightarrow> slice_to xs n = take (nat n) xs"
  by (simp add: slice_to_def)

section \<open>Pair characterization\<close>

lemma sum_list_freq:
  "sum_list (map (\<lambda>(k, c). real c / real tot) items) = real (sum_list (map snd items)) / real tot"
  by (induction items) (auto simp: add_divide_distrib)

lemma get_amino_acid_pairs_value:
  assumes "i < ncols A" and "j < ncols A" and "0 \<le> top_n"
  shows "get_amino_acid_pairs A (int i) (int j) top_n
           = Inr (map (\<lambda>((aa_i, aa_j), c).
                         (aa_i, aa_j, real c / real (length (joint_rows (column A i) (column A j))), c))
                   (take (nat top_n)
                      (sorted_reverse (\<lambda>x. int (snd x))
                         (Counter (joint_rows (column A i) (column A j))))))"
proof -
  let ?a = "column A i" and ?b = "column A j"
  let ?prs = "joint_rows ?a ?b"
  have ci: "get_column A (int i) = Inr ?a" and cj: "get_column A (int j) = Inr ?b"
    using assms by (simp_all add: get_column_nat column_def)
  have len: "length ?a = length ?b" by (simp add: column_def)
  have m: "np_and (ne_gap ?a) (ne_gap ?b) = Inr (map2 (\<and>) (ne_gap ?a) (ne_gap ?b))"
    using len by (simp add: np_and_def ne_gap_def)
  have bi: "bool_index ?a (map2 (\<and>) (ne_gap ?a) (ne_gap ?b)) = Inr (map fst ?prs)"
    using len by (simp add: bool_index_def ne_gap_def clean_fst [unfolded ne_gap_def])
  have bj: "bool_index ?b (map2 (\<and>) (ne_gap ?a) (ne_gap ?b)) = Inr (map snd ?prs)"
    using len by (simp add: bool_index_def ne_gap_def clean_snd [unfolded ne_gap_def])
  have z: "zip (map fst ?prs) (map snd ?prs) = ?prs" by (simp add: zip_map_fst_snd)
  show ?thesis
  proof (cases "?prs = []")
    case True
    then show ?thesis
      by (simp add: get_amino_acid_pairs_def bind_err_def ci cj m bi bj Counter_def
            sorted_reverse_def)
  next
    case False
    then have pos: "0 < length ?prs" by simp
    show ?thesis
      using False
      by (simp add: get_amino_acid_pairs_def bind_err_def ci cj m bi bj z Let_def
            format_pairs_Inr [OF pos] slice_to_nonneg [OF assms(3)])
  qed
qed

text \<open>
  C9. For valid column indices \<open>i\<close>, \<open>j\<close> and a count \<open>top_n \<ge> 0\<close> (default 5), let
  \<open>prs\<close> be the symbol pairs of the rows that are non-gap in both columns and \<open>n\<close> their
  number. There is a ranking of the distinct pairs of \<open>prs\<close>, each with its number of
  occurrences, in descending order of count, whose frequencies \<open>count / n\<close> add up to 1;
  \<open>get_amino_acid_pairs\<close> returns its first \<open>top_n\<close> entries as tuples
  \<open>(aa_i, aa_j, count / n, count)\<close>, and the empty list when \<open>n = 0\<close>. (A negative
  \<open>top_n\<close> is a Python slice from the end and is not a count; it is outside this
  statement.)
\<close>

theorem get_amino_acid_pairs_ranking:
  assumes "i < ncols A" and "j < ncols A" and "0 \<le> top_n"
  shows "let prs = joint_rows (column A i) (column A j); n = length prs in
         \<exists>ranking.
           distinct (map fst ranking)
           \<and> set (map fst ranking) = set prs
           \<and> (\<forall>(k, c) \<in> set ranking. c = count_list prs k)
           \<and> sorted_wrt (\<lambda>x y. snd y \<le> snd x) ranking
           \<and> (prs \<noteq> [] \<longrightarrow> sum_list (map (\<lambda>(k, c). real c / real n) ranking) = 1)
           \<and> get_amino_acid_pairs A (int i) (int j) top_n
                = Inr (map (\<lambda>((aa_i, aa_j), c). (aa_i, aa_j, real c / real n, c))
                        (take (nat top_n) ranking))
           \<and> (prs = [] \<longrightarrow> get_amino_acid_pairs A (int i) (int j) top_n = Inr [])"
proof -
  define prs where "prs = joint_rows (column A i) (column A j)"
  define ranking where "ranking = sorted_reverse (\<lambda>x. int (snd x)) (Counter prs)"
  have d: "distinct (map fst ranking)"
    by (simp add: ranking_def sorted_reverse_distinct Counter_distinct)
  have s: "set (map fst ranking) = set prs"
    using Counter_keys [of prs] by (simp add: ranking_def sorted_reverse_set)
  have c: "\<forall>(k, c) \<in> set ranking. c = count_list prs k"
    using Counter_count [of _ _ prs] by (auto simp: ranking_def sorted_reverse_set)
  have o: "sorted_wrt (\<lambda>x y. snd y \<le> snd x) ranking"
    using sorted_reverse_descending [of "\<lambda>x. int (snd x)" "Counter prs"]
    by (simp add: ranking_def)
  have f: "sum_list (map (\<lambda>(k, c). real c / real (length prs)) ranking) = 1" if "prs \<noteq> []"
  proof -
    have "sum_list (map (\<lambda>(k, c). real c / real (length prs)) ranking)
            = sum_list (map (\<lambda>(k, c). real c / real (length prs)) (Counter prs))"
      by (simp add: ranking_def sorted_reverse_def sum_list_sort_key)
    also have "\<dots> = real (length prs) / real (length prs)"
      by (simp only: sum_list_freq Counter_sum)
    also have "\<dots> = 1" using that by simp
    finally show ?thesis .
  qed
  have v: "get_amino_acid_pairs A (int i) (int j) top_n
             = Inr (map (\<lambda>((aa_i, aa_j), c). (aa_i, aa_j, real c / real (length prs), c))
                     (take (nat top_n) ranking))"
    using get_amino_acid_pairs_value [OF assms] by (simp add: prs_def ranking_def)
  have e: "get_amino_acid_pairs A (int i) (int j) top_n = Inr []" if "prs = []"
    using v that by (simp add: ranking_def Counter_def sorted_reverse_def)
  show ?thesis
    unfolding Let_def prs_def [symmetric] using d s c o f v e by blast
qed

theorem get_amino_acid_pairs_ranking_witness:
  "(0::nat) < ncols ex_pairs \<and> (1::nat) < ncols ex_pairs \<and> (0::int) \<le> 5
   \<and> joint_rows (column ex_pairs 0) (column ex_pairs 1)
        = [(CHR ''A'', CHR ''D''), (CHR ''A'', CHR ''D''), (CHR ''C'', CHR ''E'')]
   \<and> get_amino_acid_pairs_default ex_pairs (int 0) (int 1)
        = Inr [(CHR ''A'', CHR ''D'', 2 / 3, 2), (CHR ''C'', CHR ''E'', 1 / 3, 1)]
   \<and> get_amino_acid_pairs ex_pairs (int 0) (int 1) 1 = Inr [(CHR ''A'', CHR ''D'', 2 / 3, 2)]"
proof -
  have h0: "(0::nat) < ncols ex_pairs" and h1: "(1::nat) < ncols ex_pairs"
    by (simp_all add: ex_pairs_def)
  have h2: "(0::int) \<le> 5" by simp
  have r: "joint_rows (column ex_pairs 0) (column ex_pairs 1)
             = [(CHR ''A'', CHR ''D''), (CHR ''A'', CHR ''D''), (CHR ''C'', CHR ''E'')]"
    by (simp add: joint_rows_def column_def ex_pairs_def gap_def)
  have v: "get_amino_acid_pairs ex_pairs (int 0) (int 1) 5
             = Inr [(CHR ''A'', CHR ''D'', 2 / 3, 2), (CHR ''C'', CHR ''E'', 1 / 3, 1)]"
    by (simp add: get_amino_acid_pairs_def run_defs ex_pairs_def slice_to_def
          sorted_reverse_def)
  have w: "get_amino_acid_pairs ex_pairs (int 0) (int 1) 1 = Inr [(CHR ''A'', CHR ''D'', 2 / 3, 2)]"
    by (simp add: get_amino_acid_pairs_def run_defs ex_pairs_def slice_to_def
          sorted_reverse_def)
  show ?thesis
    using get_amino_acid_pairs_ranking [OF h0 h1 h2] h0 h1 r v w
    by (simp add: get_amino_acid_pairs_default_def)
qed

section \<open>Candidate pruning search\<close>

text \<open>The stages of \<open>find_top_triplets\<close>, one at a time.\<close>

lemma get_column_column: "i < ncols A \<Longrightarrow> get_column A (int i) = Inr (column A i)"
  by (simp add: get_column_nat column_def)

lemma compute_mutual_information_column:
  "compute_mutual_information (column A i) (column A j) = Inr (pair_mi A i j)"
  by (simp add: compute_mutual_information_value column_def pair_mi_def)

lemma compute_connected_triplet_mi_column:
  assumes "i < ncols A" and "j < ncols A" and "k < ncols A"
  shows "compute_connected_triplet_mi A (int i) (int j) (int k) = Inr (connected_mi A i j k)"
  using compute_connected_triplet_mi_value [OF get_column_column [OF assms(1)]
      get_column_column [OF assms(2)] get_column_column [OF assms(3)]]
  by (simp add: connected_mi_def pair_mi_def)

lemma score_pairs_Inr:
  assumes "\<forall>(i, j) \<in> set prs. i < ncols A \<and> j < ncols A"
  shows "score_pairs A prs acc = Inr (acc @ map (\<lambda>(i, j). (i, j, pair_mi A i j)) prs)"
  using assms
proof (induction prs arbitrary: acc)
  case Nil
  then show ?case by simp
next
  case (Cons p prs)
  obtain i j where p: "p = (i, j)" by (cases p)
  from Cons.prems have b: "i < ncols A" "j < ncols A"
    and rest: "\<forall>(i, j) \<in> set prs. i < ncols A \<and> j < ncols A"
    by (simp_all add: p)
  show ?case
    by (simp add: p bind_err_def get_column_column b compute_mutual_information_column
          Cons.IH [OF rest])
qed

lemma set_range_pairs: "set (range_pairs n) = {(i, j). i < j \<and> j < n}"
proof -
  have "(a, b) \<in> set (range_pairs n)" if "a < b" "b < n" for a b
  proof -
    have "a \<in> {0..<n}" and "(a, b) \<in> Pair a ` {Suc a..<n}" using that by auto
    then show ?thesis unfolding range_pairs_def by (simp del: atLeastLessThan_iff) blast
  qed
  moreover have "a < b \<and> b < n" if "(a, b) \<in> set (range_pairs n)" for a b
    using that by (auto simp: range_pairs_def)
  ultimately show ?thesis by auto
qed

lemma distinct_pairs_concat:
  "distinct is \<Longrightarrow> (\<And>i. distinct (g i)) \<Longrightarrow>
     distinct (concat (map (\<lambda>i. map (Pair i) (g i)) is))"
  by (induction "is") (auto simp: distinct_map inj_on_def)

lemma distinct_range_pairs: "distinct (range_pairs n)"
  unfolding range_pairs_def by (rule distinct_pairs_concat) simp_all

lemma candidate_list_set:
  "set (candidate_list top_pairs) = (\<Union>(i, j, mi) \<in> set top_pairs. {i, j})"
  by (auto simp: candidate_list_def)

lemma candidate_list_strict: "sorted_wrt (<) (candidate_list top_pairs)"
  by (simp add: candidate_list_def strict_sorted_iff)

lemma set_combinations2:
  "sorted_wrt (<) xs \<Longrightarrow>
     set (combinations2 xs) = {(a, b). a \<in> set xs \<and> b \<in> set xs \<and> a < b}"
  for xs :: "nat list"
  by (induction xs) auto

lemma set_combinations3:
  "sorted_wrt (<) xs \<Longrightarrow>
     set (combinations3 xs)
       = {(a, b, c). a \<in> set xs \<and> b \<in> set xs \<and> c \<in> set xs \<and> a < b \<and> b < c}"
  for xs :: "nat list"
proof (induction xs)
  case Nil
  then show ?case by simp
next
  case (Cons x xs)
  then have s: "sorted_wrt (<) xs" and lt: "\<forall>y \<in> set xs. x < y" by simp_all
  show ?case
    using lt by (auto simp: Cons.IH [OF s] set_combinations2 [OF s])
qed

lemma distinct_combinations2: "distinct xs \<Longrightarrow> distinct (combinations2 xs)"
  for xs :: "nat list"
proof (induction xs)
  case Nil
  then show ?case by simp
next
  case (Cons x xs)
  have sub: "set (combinations2 ys) \<subseteq> set ys \<times> set ys" for ys :: "nat list"
    by (induction ys) auto
  show ?case
    using Cons sub [of xs] by (auto simp: distinct_map inj_on_def)
qed

lemma distinct_combinations3: "distinct xs \<Longrightarrow> distinct (combinations3 xs)"
  for xs :: "nat list"
proof (induction xs)
  case Nil
  then show ?case by simp
next
  case (Cons x xs)
  have sub: "set (combinations3 ys) \<subseteq> set ys \<times> set ys \<times> set ys" for ys :: "nat list"
  proof (induction ys)
    case Nil
    then show ?case by simp
  next
    case (Cons y ys)
    have "set (combinations2 zs) \<subseteq> set zs \<times> set zs" for zs :: "nat list"
      by (induction zs) auto
    from this [of ys] Cons show ?case by auto
  qed
  show ?case
    using Cons sub [of xs] by (auto simp: distinct_map inj_on_def distinct_combinations2)
qed

lemma list_get_nat: "i < length xs \<Longrightarrow> list_get xs (int i) = Inr (xs ! i)"
  by (simp add: list_get_def py_index_def bind_err_def)

lemma dict_get_label:
  assumes "i < length pidx" and "set pidx \<subseteq> dom plab"
  shows "dict_get plab (pidx ! i) = Inr (label_of pidx plab i)"
proof -
  have "pidx ! i \<in> set pidx" using assms(1) by (rule nth_mem)
  then have "pidx ! i \<in> dom plab" using assms(2) by blast
  then obtain v where "plab (pidx ! i) = Some v" by blast
  then show ?thesis by (simp add: dict_get_def label_of_def)
qed

lemma score_triplets_Inr:
  assumes "\<forall>(i, j, k) \<in> set trs. i < length pidx \<and> j < length pidx \<and> k < length pidx"
    and "length pidx \<le> ncols A" and "set pidx \<subseteq> dom plab"
  shows "score_triplets A pidx plab trs acc
           = Inr (acc @ map (\<lambda>(i, j, k). (label_of pidx plab i, label_of pidx plab j,
                                         label_of pidx plab k, connected_mi A i j k))
                          (filter (\<lambda>(i, j, k). 0 < connected_mi A i j k) trs))"
  using assms(1)
proof (induction trs arbitrary: acc)
  case Nil
  then show ?case by simp
next
  case (Cons t trs)
  obtain i j k where t: "t = (i, j, k)" by (cases t) auto
  from Cons.prems have b: "i < length pidx" "j < length pidx" "k < length pidx"
    and rest: "\<forall>(i, j, k) \<in> set trs. i < length pidx \<and> j < length pidx \<and> k < length pidx"
    by (simp_all add: t)
  have c: "i < ncols A" "j < ncols A" "k < ncols A" using b assms(2) by simp_all
  note cm = compute_connected_triplet_mi_column [OF c]
  show ?case
  proof (cases "0 < connected_mi A i j k")
    case True
    then show ?thesis
      by (simp add: t bind_err_def cm list_get_nat b dict_get_label [OF _ assms(3)]
            Cons.IH [OF rest])
  next
    case False
    then show ?thesis
      by (simp add: t bind_err_def cm Cons.IH [OF rest])
  qed
qed

lemma insort_key_map:
  "insort_key k (f x) (map f xs) = map f (insort_key (\<lambda>y. k (f y)) x xs)"
  by (induction xs) simp_all

lemma sort_key_map: "sort_key k (map f xs) = map f (sort_key (\<lambda>y. k (f y)) xs)"
  by (induction xs) (simp_all add: insort_key_map)

lemma ranked_pairs_set:
  "set (ranked_pairs A n) = {(i, j, mi). i < j \<and> j < n \<and> mi = pair_mi A i j}"
  by (auto simp: ranked_pairs_def sorted_reverse_set set_range_pairs)

lemma ranked_pairs_keys:
  "map (\<lambda>(i, j, mi). (i, j)) (map (\<lambda>(i, j). (i, j, pair_mi A i j)) prs) = prs"
  by (induction prs) auto

lemma ranked_pairs_distinct: "distinct (map (\<lambda>(i, j, mi). (i, j)) (ranked_pairs A n))"
  by (simp only: ranked_pairs_def sorted_reverse_distinct ranked_pairs_keys distinct_range_pairs)

lemma ranked_pairs_descending:
  "sorted_wrt (\<lambda>(i, j, mi) (i', j', mi'). mi' \<le> mi) (ranked_pairs A n)"
proof -
  have "sorted_wrt (\<lambda>x y. (case y of (i, j, mi) \<Rightarrow> mi) \<le> (case x of (i, j, mi) \<Rightarrow> mi))
          (ranked_pairs A n)"
    unfolding ranked_pairs_def by (rule sorted_reverse_descending)
  then show ?thesis
    by (rule sorted_wrt_mono_rel [rotated]) auto
qed

lemma candidates_bound:
  assumes "x \<in> set (candidate_list (take m (ranked_pairs A n)))"
  shows "x < n"
proof -
  from assms obtain i j mi where "(i, j, mi) \<in> set (take m (ranked_pairs A n))" "x = i \<or> x = j"
    by (auto simp: candidate_list_set)
  then have "(i, j, mi) \<in> set (ranked_pairs A n)" "x = i \<or> x = j"
    by (auto dest: in_set_takeD)
  then show ?thesis by (auto simp: ranked_pairs_set)
qed

lemma ranked_triplets_set:
  assumes "sorted_wrt (<) cands"
  shows "set (ranked_triplets A cands)
           = {(i, j, k, cmi). i \<in> set cands \<and> j \<in> set cands \<and> k \<in> set cands \<and> i < j \<and> j < k
                \<and> cmi = connected_mi A i j k \<and> 0 < cmi}"
  by (force simp: ranked_triplets_def sorted_reverse_set set_combinations3 [OF assms])

lemma ranked_triplets_keys:
  "map (\<lambda>(i, j, k, cmi). (i, j, k)) (map (\<lambda>(i, j, k). (i, j, k, connected_mi A i j k)) trs) = trs"
  by (induction trs) auto

lemma ranked_triplets_distinct:
  assumes "sorted_wrt (<) cands"
  shows "distinct (map (\<lambda>(i, j, k, cmi). (i, j, k)) (ranked_triplets A cands))"
proof -
  have "distinct cands" using assms by (simp add: strict_sorted_iff)
  then have "distinct (filter (\<lambda>(i, j, k). 0 < connected_mi A i j k) (combinations3 cands))"
    by (simp add: distinct_combinations3)
  then show ?thesis
    by (simp only: ranked_triplets_def sorted_reverse_distinct ranked_triplets_keys)
qed

lemma ranked_triplets_descending:
  "sorted_wrt (\<lambda>(i, j, k, cmi) (i', j', k', cmi'). cmi' \<le> cmi) (ranked_triplets A cands)"
proof -
  have "sorted_wrt (\<lambda>x y. (case y of (i, j, k, cmi) \<Rightarrow> cmi) \<le> (case x of (i, j, k, cmi) \<Rightarrow> cmi))
          (ranked_triplets A cands)"
    unfolding ranked_triplets_def by (rule sorted_reverse_descending)
  then show ?thesis
    by (rule sorted_wrt_mono_rel [rotated]) auto
qed

lemma find_top_triplets_value:
  assumes n: "length pidx \<le> ncols A" and lab: "set pidx \<subseteq> dom plab"
    and tn: "0 \<le> top_n" and mc: "0 \<le> max_candidates"
  shows "find_top_triplets A pidx plab top_n max_candidates
           = Inr (map (\<lambda>(i, j, k, cmi). (label_of pidx plab i, label_of pidx plab j,
                                         label_of pidx plab k, cmi))
                   (take (nat top_n)
                      (ranked_triplets A
                         (candidate_list (take (nat max_candidates)
                            (ranked_pairs A (length pidx)))))))"
proof -
  let ?n = "length pidx"
  let ?cands = "candidate_list (take (nat max_candidates) (ranked_pairs A ?n))"
  let ?lab3 = "\<lambda>(i, j, k). (label_of pidx plab i, label_of pidx plab j, label_of pidx plab k,
                            connected_mi A i j k)"
  let ?lab4 = "\<lambda>(i, j, k, cmi). (label_of pidx plab i, label_of pidx plab j,
                                  label_of pidx plab k, cmi)"
  let ?pos = "filter (\<lambda>(i, j, k). 0 < connected_mi A i j k) (combinations3 ?cands)"
  have "\<forall>(i, j) \<in> set (range_pairs ?n). i < ncols A \<and> j < ncols A"
    using n by (auto simp: set_range_pairs)
  then have sp: "score_pairs A (range_pairs ?n) []
                   = Inr (map (\<lambda>(i, j). (i, j, pair_mi A i j)) (range_pairs ?n))"
    by (simp add: score_pairs_Inr)
  have "\<forall>(i, j, k) \<in> set (combinations3 ?cands). i < ?n \<and> j < ?n \<and> k < ?n"
    using candidates_bound [of _ "nat max_candidates" A ?n]
    by (auto simp: set_combinations3 [OF candidate_list_strict])
  then have st: "score_triplets A pidx plab (combinations3 ?cands) [] = Inr (map ?lab3 ?pos)"
    using score_triplets_Inr [OF _ n lab, of "combinations3 ?cands" "[]"] by simp
  have m: "map ?lab3 ?pos = map ?lab4 (map (\<lambda>(i, j, k). (i, j, k, connected_mi A i j k)) ?pos)"
    by (simp add: o_def case_prod_unfold)
  have k: "(\<lambda>y. - (case ?lab4 y of (label_i, label_j, label_k, cmi) \<Rightarrow> cmi))
             = (\<lambda>y. - (case y of (i, j, k, cmi) \<Rightarrow> cmi))"
    by (auto simp: fun_eq_iff)
  have srt: "sorted_reverse (\<lambda>(label_i, label_j, label_k, cmi). cmi) (map ?lab3 ?pos)
               = map ?lab4 (ranked_triplets A ?cands)"
    unfolding m sorted_reverse_def ranked_triplets_def sort_key_map k ..
  show ?thesis
    unfolding find_top_triplets_def Let_def
    by (simp only: sp bind_err_def sum.case slice_to_nonneg [OF mc] slice_to_nonneg [OF tn]
          ranked_pairs_def [symmetric] st srt take_map)
qed

text \<open>The definitions a concrete run of the search unfolds.\<close>

lemmas top_defs = find_top_triplets_default_def find_top_triplets_def range_pairs_def upt_rec
  sorted_reverse_def slice_to_def candidate_list_def list_get_def dict_get_def

text \<open>
  C3. Let the number of positions be at most the number of columns, every position index
  have a label, and \<open>top_n\<close> and \<open>max_candidates\<close> be counts (\<open>\<ge> 0\<close>; defaults 20 and
  100). Then \<open>find_top_triplets\<close> returns, and there are
  \<^item> a ranking of all unordered position pairs \<open>i < j\<close>, each once, each with its
    \<open>compute_mutual_information\<close> score, in descending order of score;
  \<^item> the top pairs: its first \<open>max_candidates\<close> entries;
  \<^item> the candidate set: the positions that occur in a top pair;
  \<^item> a ranking of exactly the triplets \<open>i < j < k\<close> of candidates whose connected MI is
    strictly positive, each once, with that value, in descending order of value;
  such that the result is the first \<open>top_n\<close> entries of the triplet ranking, with the
  positions replaced by their labels. So at most \<open>top_n\<close> triplets are returned, and none
  when \<open>max_candidates = 0\<close>.
\<close>

theorem find_top_triplets_pruned_search:
  assumes "length position_indices \<le> ncols A"
    and "set position_indices \<subseteq> dom position_labels"
    and "0 \<le> top_n" and "0 \<le> max_candidates"
  shows "\<exists>pair_ranking top_pairs candidates triplet_ranking result.
           distinct (map (\<lambda>(i, j, mi). (i, j)) pair_ranking)
           \<and> set (map (\<lambda>(i, j, mi). (i, j)) pair_ranking)
                = {(i, j). i < j \<and> j < length position_indices}
           \<and> (\<forall>(i, j, mi) \<in> set pair_ranking.
                  compute_mutual_information (column A i) (column A j) = Inr mi)
           \<and> sorted_wrt (\<lambda>(i, j, mi) (i', j', mi'). mi' \<le> mi) pair_ranking
           \<and> top_pairs = take (nat max_candidates) pair_ranking
           \<and> candidates = (\<Union>(i, j, mi) \<in> set top_pairs. {i, j})
           \<and> distinct (map (\<lambda>(i, j, k, cmi). (i, j, k)) triplet_ranking)
           \<and> set triplet_ranking
                = {(i, j, k, cmi). i \<in> candidates \<and> j \<in> candidates \<and> k \<in> candidates
                     \<and> i < j \<and> j < k
                     \<and> compute_connected_triplet_mi A (int i) (int j) (int k) = Inr cmi
                     \<and> 0 < cmi}
           \<and> sorted_wrt (\<lambda>(i, j, k, cmi) (i', j', k', cmi'). cmi' \<le> cmi) triplet_ranking
           \<and> result = map (\<lambda>(i, j, k, cmi).
                              (label_of position_indices position_labels i,
                               label_of position_indices position_labels j,
                               label_of position_indices position_labels k, cmi))
                          (take (nat top_n) triplet_ranking)
           \<and> length result \<le> nat top_n
           \<and> find_top_triplets A position_indices position_labels top_n max_candidates
                = Inr result
           \<and> (max_candidates = 0 \<longrightarrow> result = [])"
proof -
  let ?n = "length position_indices"
  define pair_ranking where "pair_ranking = ranked_pairs A ?n"
  define top_pairs where "top_pairs = take (nat max_candidates) pair_ranking"
  define cands where "cands = candidate_list top_pairs"
  define triplet_ranking where "triplet_ranking = ranked_triplets A cands"
  define result where
    "result = map (\<lambda>(i, j, k, cmi).
                      (label_of position_indices position_labels i,
                       label_of position_indices position_labels j,
                       label_of position_indices position_labels k, cmi))
                (take (nat top_n) triplet_ranking)"
  have strict: "sorted_wrt (<) cands"
    unfolding cands_def by (rule candidate_list_strict)
  have bound: "x < ncols A" if "x \<in> set cands" for x
    using candidates_bound [of x "nat max_candidates" A ?n] that assms(1)
    by (simp add: cands_def top_pairs_def pair_ranking_def)
  have p1: "distinct (map (\<lambda>(i, j, mi). (i, j)) pair_ranking)"
    unfolding pair_ranking_def by (rule ranked_pairs_distinct)
  have p2: "set (map (\<lambda>(i, j, mi). (i, j)) pair_ranking) = {(i, j). i < j \<and> j < ?n}"
    unfolding pair_ranking_def by (force simp: ranked_pairs_set)
  have p3: "\<forall>(i, j, mi) \<in> set pair_ranking.
              compute_mutual_information (column A i) (column A j) = Inr mi"
    unfolding pair_ranking_def
    by (auto simp: ranked_pairs_set compute_mutual_information_column)
  have p4: "sorted_wrt (\<lambda>(i, j, mi) (i', j', mi'). mi' \<le> mi) pair_ranking"
    unfolding pair_ranking_def by (rule ranked_pairs_descending)
  have c1: "set cands = (\<Union>(i, j, mi) \<in> set top_pairs. {i, j})"
    unfolding cands_def by (rule candidate_list_set)
  have t1: "distinct (map (\<lambda>(i, j, k, cmi). (i, j, k)) triplet_ranking)"
    unfolding triplet_ranking_def by (rule ranked_triplets_distinct [OF strict])
  have t2: "set triplet_ranking
              = {(i, j, k, cmi). i \<in> set cands \<and> j \<in> set cands \<and> k \<in> set cands
                   \<and> i < j \<and> j < k
                   \<and> compute_connected_triplet_mi A (int i) (int j) (int k) = Inr cmi
                   \<and> 0 < cmi}"
    unfolding triplet_ranking_def ranked_triplets_set [OF strict]
    using bound by (auto simp: compute_connected_triplet_mi_column)
  have t3: "sorted_wrt (\<lambda>(i, j, k, cmi) (i', j', k', cmi'). cmi' \<le> cmi) triplet_ranking"
    unfolding triplet_ranking_def by (rule ranked_triplets_descending)
  have r1: "length result \<le> nat top_n"
    by (simp add: result_def)
  have r2: "find_top_triplets A position_indices position_labels top_n max_candidates
              = Inr result"
    using find_top_triplets_value [OF assms]
    by (simp only: result_def triplet_ranking_def cands_def top_pairs_def pair_ranking_def)
  have r3: "result = []" if "max_candidates = 0"
    using that
    by (simp add: result_def triplet_ranking_def cands_def top_pairs_def candidate_list_def
          ranked_triplets_def sorted_reverse_def)
  show ?thesis
    using p1 p2 p3 p4 top_pairs_def c1 t1 t2 [unfolded c1] t3 result_def r1 r2 r3
    by (intro exI [of _ pair_ranking] exI [of _ top_pairs] exI [of _ "set cands"]
          exI [of _ triplet_ranking] exI [of _ result] conjI impI) (simp_all only: c1)
qed

theorem find_top_triplets_pruned_search_witness:
  "length [0, 1, 2 :: int] \<le> ncols ex_xor \<and> (0::int) \<le> 20 \<and> (0::int) \<le> 100
   \<and> compute_connected_triplet_mi ex_xor 0 1 2 = Inr 1
   \<and> find_top_triplets_default ex_xor [0, 1, 2] ex_labels
        = Inr [(''GLU1'', ''ASP2'', ''TYR3'', 1)]
   \<and> find_top_triplets ex_xor [0, 1, 2] ex_labels 20 0 = Inr []"
proof -
  have h1: "length [0, 1, 2 :: int] \<le> ncols ex_xor" by (simp add: ex_xor_def)
  have h2: "set [0, 1, 2 :: int] \<subseteq> dom ex_labels" by (simp add: ex_labels_def)
  have h3: "(0::int) \<le> 20" and h4: "(0::int) \<le> 100" by simp_all
  have c: "compute_connected_triplet_mi ex_xor 0 1 2 = Inr 1"
    by (simp add: run_defs ex_xor_def)
  have v: "find_top_triplets_default ex_xor [0, 1, 2] ex_labels
             = Inr [(''GLU1'', ''ASP2'', ''TYR3'', 1)]"
    by (simp add: top_defs run_defs ex_xor_def ex_labels_def)
  have w: "find_top_triplets ex_xor [0, 1, 2] ex_labels 20 0 = Inr []"
    by (simp add: top_defs run_defs ex_xor_def ex_labels_def)
  show ?thesis
    using find_top_triplets_pruned_search [OF h1 h2 h3 h4] h1 c v w by simp
qed

end
